theory Spec2Isabelle
  imports Complex_Main
begin

section \<open>Values, task objects and the task store\<close>

text \<open>
  The backend (\<^verbatim>\<open>backend/index.js\<close>) keeps one global object \<^verbatim>\<open>tasks\<close>, keyed by
  the task id. A task is a plain JavaScript object whose properties are added as the
  pipeline advances, so it is modelled as a finite map from property names to values,
  and the store as a map from ids to such objects. A property that was never assigned
  is absent from the map (\<open>None\<close>), exactly what \<^verbatim>\<open>res.json(t)\<close> shows to a client.
  \<open>jsval\<close> are the values of a JSON request body and of the properties; \<open>JObject\<close>
  stands for any object or array, which \<^verbatim>\<open>includes\<close> never finds equal to a string.
\<close>

datatype jsval =
    JUndefined
  | JNull
  | JBool bool
  | JNum real
  | JStr string
  | JObject

type_synonym task = "string \<rightharpoonup> jsval"

type_synonym store = "string \<rightharpoonup> task"

text \<open>
  A value that is thrown or that a promise is rejected with. The code reads nothing of
  it but \<^verbatim>\<open>err.message\<close>, so it is given by the value of that property: a string for an
  \<^verbatim>\<open>Error\<close> (\<open>JsError m\<close> is \<^verbatim>\<open>new Error(m)\<close>), \<open>JUndefined\<close> for a value that has no such
  property. It is never \<^verbatim>\<open>null\<close> or \<^verbatim>\<open>undefined\<close>: every \<^verbatim>\<open>reject(err)\<close> of the code is
  guarded by \<^verbatim>\<open>if (err)\<close>.
\<close>

datatype jserror = Thrown (message: jsval)

abbreviation JsError :: "string \<Rightarrow> jserror" where
  "JsError m \<equiv> Thrown (JStr m)"

text \<open>
  What a request handler sends back: \<open>BadRequest m\<close> is \<^verbatim>\<open>res.status(400).json({error: m})\<close>,
  \<open>DeployOk i\<close> is \<^verbatim>\<open>res.json({id: i})\<close>, \<open>NotFound m\<close> is
  \<^verbatim>\<open>res.status(404).json({error: m})\<close> and \<open>StatusOk t\<close> is \<^verbatim>\<open>res.json(t)\<close>, the task as it
  is at that moment.
\<close>

datatype response =
    BadRequest string
  | DeployOk string
  | NotFound string
  | StatusOk task

section \<open>The port allocator \<^verbatim>\<open>getFreePort\<close>\<close>

text \<open>
  \<^verbatim>\<open>
  async function getFreePort(){
    const min = 30000, max = 40000;
    for (let i=0;i<100;i++){
      const p = Math.floor(Math.random()*(max-min))+min;
      ... try{ await new Promise(... .listen(p, '0.0.0.0')); server.close(); return p; }
          catch(e){ /* in use */ }
    }
    throw new Error('no free ports');
  }
  \<close>
  The two things the function takes from outside are the value of \<^verbatim>\<open>Math.random()\<close> and
  whether the trial bind succeeds. Both are given by \<open>env\<close>: \<open>env i\<close> is the pair
  (random draw, bind succeeded) of iteration \<open>i\<close>.

  JavaScript numbers are IEEE 754 doubles. The draw is a double in \<open>[0, 1)\<close>
  (\<open>unit_double\<close>: a multiple \<open>m / 2 ^ k\<close> with \<open>m < 2 ^ 53\<close> and \<open>k \<le> 1074\<close>), and the
  product \<^verbatim>\<open>Math.random()*(max-min)\<close> is the double nearest to the exact product, ties
  going to the even mantissa: \<open>double_of x\<close>, for \<open>0 \<le> x < 2 ^ 53\<close>. There
  \<open>frac_bits 1074 0 x\<close> is the number \<open>k\<close> of binary places of the doubles around \<open>x\<close>
  (the least \<open>k\<close> with \<open>2 ^ 52 \<le> x * 2 ^ k\<close>, at most 1074, where the subnormal numbers
  lie), and \<open>round_even\<close> rounds the mantissa \<open>x * 2 ^ k\<close> to an integer.
  \<^verbatim>\<open>Math.floor\<close> and the addition of \<^verbatim>\<open>min\<close> are exact on these values.
\<close>

definition port_min :: int where
  "port_min = 30000"

definition port_max :: int where
  "port_max = 40000"

fun frac_bits :: "nat \<Rightarrow> nat \<Rightarrow> real \<Rightarrow> nat" where
  "frac_bits 0 k x = k"
| "frac_bits (Suc n) k x = (if 2 ^ 52 \<le> x * 2 ^ k then k else frac_bits n (Suc k) x)"

definition round_even :: "real \<Rightarrow> int" where
  "round_even q =
     (let f = \<lfloor>q\<rfloor>; d = q - real_of_int f in
      if d < 1 / 2 then f else if 1 / 2 < d then f + 1 else if even f then f else f + 1)"

definition double_of :: "real \<Rightarrow> real" where
  "double_of x = (let k = frac_bits 1074 0 x in real_of_int (round_even (x * 2 ^ k)) / 2 ^ k)"

definition candidate :: "real \<Rightarrow> int" where
  "candidate r = \<lfloor>double_of (r * real_of_int (port_max - port_min))\<rfloor> + port_min"

function getFreePort_loop :: "(nat \<Rightarrow> real \<times> bool) \<Rightarrow> nat \<Rightarrow> jserror + int" where
  "getFreePort_loop env i =
     (if i < 100 then
        (let p = candidate (fst (env i)) in
         if snd (env i) then Inr p else getFreePort_loop env (i + 1))
      else Inl (JsError ''no free ports''))"
  by pat_completeness auto
termination
  by (relation "measure (\<lambda>(env, i). 100 - i)") auto

definition getFreePort :: "(nat \<Rightarrow> real \<times> bool) \<Rightarrow> jserror + int" where
  "getFreePort env = getFreePort_loop env 0"

text \<open>The contract of \<^verbatim>\<open>Math.random()\<close>: a double in \<open>[0, 1)\<close>.\<close>

definition unit_double :: "real \<Rightarrow> bool" where
  "unit_double r \<longleftrightarrow> r < 1 \<and> (\<exists>m k::nat. m < 2 ^ 53 \<and> k \<le> 1074 \<and> r = real m / 2 ^ k)"

text \<open>
  A draw whose exact product with 10000 lies just under 121 and whose double product
  is 121: the code computes the port 30121 from it.
\<close>

definition sample_draw :: real where
  "sample_draw = 54493555491183 / 2 ^ 52"

definition random_ok :: "(nat \<Rightarrow> real \<times> bool) \<Rightarrow> bool" where
  "random_ok env \<longleftrightarrow> (\<forall>i<100. unit_double (fst (env i)))"

section \<open>The provisioning pipeline of \<^verbatim>\<open>POST /deploy\<close>\<close>

text \<open>
  The pipeline is the \<^verbatim>\<open>async\<close> closure started by the handler. It runs synchronously
  from one \<^verbatim>\<open>await\<close> to the next; \<open>pc\<close> names the \<^verbatim>\<open>await\<close> it is suspended at,
  together with the closure's local variables \<^verbatim>\<open>hostPort\<close> and \<^verbatim>\<open>container.id\<close> once
  they exist. \<open>Finished\<close> is the closure having returned; \<open>Faulted\<close> is an exception
  escaping the \<^verbatim>\<open>catch\<close> block (an unhandled rejection).

  \<^verbatim>\<open>await getFreePort()\<close> is one suspension here, \<open>AwaitPort\<close>: the allocator waits for
  each of its binds, but it never reads or writes \<^verbatim>\<open>tasks\<close>, so the store a status query
  sees between two binds is the store at \<open>AwaitPort\<close>. The image name and the options
  passed to Docker (the only use of the request's type after the validation) are
  arguments of the calls to Docker and are not recorded.
\<close>

datatype pc =
    AwaitPull
  | AwaitPort
  | AwaitCreate int
  | AwaitStart int string
  | AwaitTimer int string
  | Finished
  | Faulted

text \<open>
  What the outside world delivers when an \<^verbatim>\<open>await\<close> settles: the image pull, the
  allocator's probes, \<^verbatim>\<open>docker.createContainer\<close> (the container's id on success),
  \<^verbatim>\<open>container.start()\<close>, and the six-second timer.
\<close>

datatype outcome =
    PullDone "jserror option"
  | PortDone "nat \<Rightarrow> real \<times> bool"
  | CreateDone "jserror + string"
  | StartDone "jserror option"
  | TimerDone

text \<open>
  \<^verbatim>\<open>tasks[id].f = v\<close>. When \<^verbatim>\<open>tasks[id]\<close> is undefined the assignment throws a
  TypeError: the result is \<open>None\<close>.
\<close>

definition setField :: "string \<Rightarrow> string \<Rightarrow> jsval \<Rightarrow> store \<Rightarrow> store option" where
  "setField i f v ts = (case ts i of None \<Rightarrow> None | Some t \<Rightarrow> Some (ts(i \<mapsto> t(f \<mapsto> v))))"

definition typeError :: jserror where
  "typeError = JsError ''Cannot set properties of undefined''"

text \<open>
  \<^verbatim>\<open>
  catch (err) { console.error(err); tasks[id].status = 'error'; tasks[id].error = err.message; }
  \<close>
\<close>

definition catch_err :: "string \<Rightarrow> jserror \<Rightarrow> store \<Rightarrow> pc \<times> store" where
  "catch_err i err ts =
     (case setField i ''status'' (JStr ''error'') ts of
        None \<Rightarrow> (Faulted, ts)
      | Some ts1 \<Rightarrow>
          (case setField i ''error'' (message err) ts1 of
             None \<Rightarrow> (Faulted, ts1)
           | Some ts2 \<Rightarrow> (Finished, ts2)))"

text \<open>
  The first stretch of the closure, run inside the handler itself:
  \<^verbatim>\<open>tasks[id].status = 'pulling'\<close>, then \<^verbatim>\<open>docker.pull\<close> is called and awaited.
\<close>

definition pipeline_start :: "string \<Rightarrow> store \<Rightarrow> pc \<times> store" where
  "pipeline_start i ts =
     (case setField i ''status'' (JStr ''pulling'') ts of
        None \<Rightarrow> catch_err i typeError ts
      | Some ts1 \<Rightarrow> (AwaitPull, ts1))"

text \<open>
  The stretch run when the awaited operation settles. \<open>None\<close>: that outcome does not
  belong to the \<^verbatim>\<open>await\<close> the closure is suspended at.
\<close>

fun pipeline_resume :: "string \<Rightarrow> pc \<Rightarrow> outcome \<Rightarrow> store \<Rightarrow> (pc \<times> store) option" where
  "pipeline_resume i AwaitPull (PullDone None) ts =
     Some (case setField i ''status'' (JStr ''creating'') ts of
             None \<Rightarrow> catch_err i typeError ts
           | Some ts1 \<Rightarrow> (AwaitPort, ts1))"
| "pipeline_resume i AwaitPull (PullDone (Some err)) ts = Some (catch_err i err ts)"
| "pipeline_resume i AwaitPort (PortDone env) ts =
     Some (case getFreePort env of
             Inl err \<Rightarrow> catch_err i err ts
           | Inr p \<Rightarrow> (AwaitCreate p, ts))"
| "pipeline_resume i (AwaitCreate p) (CreateDone (Inr c)) ts =
     Some (case setField i ''status'' (JStr ''starting'') ts of
             None \<Rightarrow> catch_err i typeError ts
           | Some ts1 \<Rightarrow> (AwaitStart p c, ts1))"
| "pipeline_resume i (AwaitCreate p) (CreateDone (Inl err)) ts = Some (catch_err i err ts)"
| "pipeline_resume i (AwaitStart p c) (StartDone None) ts = Some (AwaitTimer p c, ts)"
| "pipeline_resume i (AwaitStart p c) (StartDone (Some err)) ts = Some (catch_err i err ts)"
| "pipeline_resume i (AwaitTimer p c) TimerDone ts =
     Some (case setField i ''status'' (JStr ''running'') ts of
             None \<Rightarrow> catch_err i typeError ts
           | Some ts1 \<Rightarrow>
               (case setField i ''containerId'' (JStr c) ts1 of
                  None \<Rightarrow> catch_err i typeError ts1
                | Some ts2 \<Rightarrow>
                    (case setField i ''hostPort'' (JNum (real_of_int p)) ts2 of
                       None \<Rightarrow> catch_err i typeError ts2
                     | Some ts3 \<Rightarrow> (Finished, ts3))))"
| "pipeline_resume i _ _ ts = None"

section \<open>The server: store, running pipelines, responses sent\<close>

text \<open>
  A closure remembers the \<^verbatim>\<open>id\<close> it was started for. The server state is the store,
  the closures started so far (in the order of their start) and the responses sent so
  far. Node runs one stretch of code at a time, so an event is handled atomically.
\<close>

record pipeline =
  task_id :: string
  cont :: pc

record state =
  tasks :: store
  pipelines :: "pipeline list"
  sent :: "response list"

definition init :: state where
  "init = \<lparr>tasks = Map.empty, pipelines = [], sent = []\<rparr>"

text \<open>\<^verbatim>\<open>['desktop','server'].includes(type)\<close>\<close>

definition includes_type :: "jsval \<Rightarrow> bool" where
  "includes_type ty \<longleftrightarrow> ty = JStr ''desktop'' \<or> ty = JStr ''server''"

text \<open>\<^verbatim>\<open>tasks[id] = { status: 'queued', type }\<close>\<close>

definition createTask :: "string \<Rightarrow> jsval \<Rightarrow> store \<Rightarrow> store" where
  "createTask i ty ts = ts(i \<mapsto> [''status'' \<mapsto> JStr ''queued'', ''type'' \<mapsto> ty])"

text \<open>
  \<^verbatim>\<open>app.post('/deploy', ...)\<close>; \<open>uuid\<close> is what \<^verbatim>\<open>uuidv4()\<close> returns for this request.
\<close>

definition deploy :: "string \<Rightarrow> jsval \<Rightarrow> state \<Rightarrow> state" where
  "deploy uuid ty s =
     (if \<not> includes_type ty then
        s\<lparr>sent := sent s @ [BadRequest ''type must be desktop or server'']\<rparr>
      else
        (let (c, ts) = pipeline_start uuid (createTask uuid ty (tasks s)) in
         \<lparr>tasks = ts,
          pipelines = pipelines s @ [\<lparr>task_id = uuid, cont = c\<rparr>],
          sent = sent s @ [DeployOk uuid]\<rparr>))"

text \<open>
  \<^verbatim>\<open>app.get('/status/:id', ...)\<close>. The ids are the keys that were assigned; an id that
  names a property every JavaScript object inherits (such as \<^verbatim>\<open>__proto__\<close>) is answered
  by the code with that property, which is no task and has no status, and is not
  modelled.
\<close>

definition status :: "string \<Rightarrow> state \<Rightarrow> state" where
  "status i s =
     s\<lparr>sent := sent s @
        [case tasks s i of None \<Rightarrow> NotFound ''task not found'' | Some t \<Rightarrow> StatusOk t]\<rparr>"

text \<open>The \<open>k\<close>-th closure is resumed with an outcome.\<close>

definition resume :: "nat \<Rightarrow> outcome \<Rightarrow> state \<Rightarrow> state option" where
  "resume k out s =
     (if k < length (pipelines s) then
        (let P = pipelines s ! k in
         case pipeline_resume (task_id P) (cont P) out (tasks s) of
           None \<Rightarrow> None
         | Some (c, ts) \<Rightarrow> Some (s\<lparr>tasks := ts, pipelines := (pipelines s)[k := P\<lparr>cont := c\<rparr>]\<rparr>))
      else None)"

datatype event =
    Deploy string jsval
  | Status string
  | Resume nat outcome

fun fire :: "event \<Rightarrow> state \<Rightarrow> state option" where
  "fire (Deploy uuid ty) s = Some (deploy uuid ty s)"
| "fire (Status i) s = Some (status i s)"
| "fire (Resume k out) s = resume k out s"

text \<open>
  What is assumed of the libraries: \<^verbatim>\<open>uuidv4()\<close>, called for a request that passed the
  validation, returns an id that is not in the store (the handler does not check it and
  would overwrite the task), and \<^verbatim>\<open>Math.random()\<close> returns a double in \<open>[0, 1)\<close>. Nothing
  is assumed of Docker or of the host's ports: a pull, a bind, a creation or a start may
  succeed or fail at any time. \<open>step\<close> is one event handled; \<open>run\<close> handles a list of
  events, and is \<open>None\<close> when one of them is not possible.
\<close>

fun admissible :: "event \<Rightarrow> state \<Rightarrow> bool" where
  "admissible (Deploy uuid ty) s \<longleftrightarrow> (includes_type ty \<longrightarrow> uuid \<notin> dom (tasks s))"
| "admissible (Status i) s \<longleftrightarrow> True"
| "admissible (Resume k (PortDone env)) s \<longleftrightarrow> random_ok env"
| "admissible (Resume k out) s \<longleftrightarrow> True"

inductive step :: "state \<Rightarrow> state \<Rightarrow> bool" where
  stepI: "admissible e s \<Longrightarrow> fire e s = Some s' \<Longrightarrow> step s s'"

definition reachable :: "state \<Rightarrow> bool" where
  "reachable s \<longleftrightarrow> step\<^sup>*\<^sup>* init s"

fun run :: "event list \<Rightarrow> state \<Rightarrow> state option" where
  "run [] s = Some s"
| "run (e # es) s =
     (if admissible e s then (case fire e s of None \<Rightarrow> None | Some s' \<Rightarrow> run es s') else None)"

section \<open>Vocabulary of the properties\<close>

subsection \<open>The task a suspended closure expects\<close>

text \<open>
  \<open>agrees c t\<close> says what the task of a closure suspended at \<open>c\<close> looks like: its status,
  and that container id, host port and error are absent (\<open>bare\<close>) until the closure has
  returned, when the task is \<open>settled\<close>: running with a container id and a host port in
  range, or error with the error property written and neither of the two. \<open>shaped\<close> is what holds of
  every task at all times. \<open>consistent\<close> is the invariant of the server: one closure per
  task, each task as its closure expects it, every snapshot sent by the status handler
  was such a task, and every id sent by deploy is in the store.
\<close>

definition bare :: "task \<Rightarrow> bool" where
  "bare t \<longleftrightarrow> t ''containerId'' = None \<and> t ''hostPort'' = None \<and> t ''error'' = None"

definition in_range :: "int \<Rightarrow> bool" where
  "in_range p \<longleftrightarrow> 30000 \<le> p \<and> p < 40000"

definition settled :: "task \<Rightarrow> bool" where
  "settled t \<longleftrightarrow>
     (t ''status'' = Some (JStr ''running'') \<and> (\<exists>c. t ''containerId'' = Some (JStr c)) \<and>
      (\<exists>p. in_range p \<and> t ''hostPort'' = Some (JNum (real_of_int p))) \<and> t ''error'' = None) \<or>
     (t ''status'' = Some (JStr ''error'') \<and> (\<exists>v. t ''error'' = Some v) \<and>
      t ''containerId'' = None \<and> t ''hostPort'' = None)"

fun agrees :: "pc \<Rightarrow> task \<Rightarrow> bool" where
  "agrees AwaitPull t \<longleftrightarrow> t ''status'' = Some (JStr ''pulling'') \<and> bare t"
| "agrees AwaitPort t \<longleftrightarrow> t ''status'' = Some (JStr ''creating'') \<and> bare t"
| "agrees (AwaitCreate p) t \<longleftrightarrow> t ''status'' = Some (JStr ''creating'') \<and> bare t \<and> in_range p"
| "agrees (AwaitStart p c) t \<longleftrightarrow> t ''status'' = Some (JStr ''starting'') \<and> bare t \<and> in_range p"
| "agrees (AwaitTimer p c) t \<longleftrightarrow> t ''status'' = Some (JStr ''starting'') \<and> bare t \<and> in_range p"
| "agrees Finished t \<longleftrightarrow> settled t"
| "agrees Faulted t \<longleftrightarrow> False"

text \<open>
  \<open>task_resume\<close> is \<open>pipeline_resume\<close> seen from the one task it writes to, for a task
  that exists (\<open>pipeline_resume_task\<close> below proves the two equal); \<open>caught\<close> is the
  \<^verbatim>\<open>catch\<close> block likewise. They serve the proofs; the claims are stated on \<open>deploy\<close>,
  \<open>resume\<close> and \<open>step\<close>.
\<close>

definition caught :: "jserror \<Rightarrow> task \<Rightarrow> task" where
  "caught err t = t(''status'' \<mapsto> JStr ''error'', ''error'' \<mapsto> message err)"

fun task_resume :: "pc \<Rightarrow> outcome \<Rightarrow> task \<Rightarrow> (pc \<times> task) option" where
  "task_resume AwaitPull (PullDone None) t = Some (AwaitPort, t(''status'' \<mapsto> JStr ''creating''))"
| "task_resume AwaitPull (PullDone (Some err)) t = Some (Finished, caught err t)"
| "task_resume AwaitPort (PortDone env) t =
     Some (case getFreePort env of Inl err \<Rightarrow> (Finished, caught err t) | Inr p \<Rightarrow> (AwaitCreate p, t))"
| "task_resume (AwaitCreate p) (CreateDone (Inr c)) t = Some (AwaitStart p c, t(''status'' \<mapsto> JStr ''starting''))"
| "task_resume (AwaitCreate p) (CreateDone (Inl err)) t = Some (Finished, caught err t)"
| "task_resume (AwaitStart p c) (StartDone None) t = Some (AwaitTimer p c, t)"
| "task_resume (AwaitStart p c) (StartDone (Some err)) t = Some (Finished, caught err t)"
| "task_resume (AwaitTimer p c) TimerDone t =
     Some (Finished, t(''status'' \<mapsto> JStr ''running'', ''containerId'' \<mapsto> JStr c,
                       ''hostPort'' \<mapsto> JNum (real_of_int p)))"
| "task_resume _ _ t = None"

definition shaped :: "task \<Rightarrow> bool" where
  "shaped t \<longleftrightarrow>
     t ''createdAt'' = None \<and>
     (\<exists>ty. t ''type'' = Some ty \<and> includes_type ty)"

fun outcome_ok :: "outcome \<Rightarrow> bool" where
  "outcome_ok (PortDone env) = random_ok env"
| "outcome_ok _ = True"

definition consistent :: "state \<Rightarrow> bool" where
  "consistent s \<longleftrightarrow>
     distinct (map task_id (pipelines s)) \<and>
     task_id ` set (pipelines s) = dom (tasks s) \<and>
     (\<forall>P \<in> set (pipelines s). \<exists>t. tasks s (task_id P) = Some t \<and> agrees (cont P) t \<and> shaped t
         \<and> DeployOk (task_id P) \<in> set (sent s)) \<and>
     (\<forall>t. StatusOk t \<in> set (sent s) \<longrightarrow> (\<exists>c. agrees c t)) \<and>
     (\<forall>i. DeployOk i \<in> set (sent s) \<longrightarrow> i \<in> dom (tasks s))"

subsection \<open>The order of the statuses\<close>

text \<open>
  \<open>forward a b\<close>: \<open>a\<close> is a stage before running and \<open>b\<close> is a later stage of the
  pipeline order, or error.
\<close>

definition pipeline_order :: "string list" where
  "pipeline_order = [''queued'', ''pulling'', ''creating'', ''starting'', ''running'']"

fun position :: "string list \<Rightarrow> string \<Rightarrow> nat option" where
  "position [] a = None"
| "position (x # xs) a = (if x = a then Some 0 else map_option Suc (position xs a))"

definition terminal :: "string \<Rightarrow> bool" where
  "terminal a \<longleftrightarrow> a = ''running'' \<or> a = ''error''"

definition forward :: "string \<Rightarrow> string \<Rightarrow> bool" where
  "forward a b \<longleftrightarrow>
     (case position pipeline_order a of
        None \<Rightarrow> False
      | Some m \<Rightarrow>
          \<not> terminal a \<and>
          (b = ''error'' \<or> (case position pipeline_order b of None \<Rightarrow> False | Some n \<Rightarrow> m < n)))"

subsection \<open>Failures, example runs, ports held\<close>

text \<open>
  \<open>failure_of c out\<close> is the error with which the step awaited at \<open>c\<close> fails under the
  outcome \<open>out\<close>, if it fails. \<open>after es\<close> is the state after the events \<open>es\<close> from the
  start, \<open>task_field s i f\<close> is \<^verbatim>\<open>tasks[i].f\<close>, and \<open>full_run k r h\<close> takes closure \<open>k\<close>
  through a pull, a first probe with draw \<open>r\<close> that binds, a creation giving container
  \<open>h\<close>, a start and the timer.
\<close>

fun failure_of :: "pc \<Rightarrow> outcome \<Rightarrow> jserror option" where
  "failure_of AwaitPull (PullDone (Some e)) = Some e"
| "failure_of AwaitPort (PortDone env) = (case getFreePort env of Inl e \<Rightarrow> Some e | Inr p \<Rightarrow> None)"
| "failure_of (AwaitCreate p) (CreateDone (Inl e)) = Some e"
| "failure_of (AwaitStart p c) (StartDone (Some e)) = Some e"
| "failure_of _ _ = None"

definition after :: "event list \<Rightarrow> state" where
  "after es = (case run es init of None \<Rightarrow> init | Some s \<Rightarrow> s)"

definition task_field :: "state \<Rightarrow> string \<Rightarrow> string \<Rightarrow> jsval option" where
  "task_field s i f = (case tasks s i of None \<Rightarrow> None | Some t \<Rightarrow> t f)"

definition full_run :: "nat \<Rightarrow> real \<Rightarrow> string \<Rightarrow> event list" where
  "full_run k r h =
     [Resume k (PullDone None), Resume k (PortDone (\<lambda>i. (r, True))),
      Resume k (CreateDone (Inr h)), Resume k (StartDone None), Resume k TimerDone]"

text \<open>
  A closure holds the port \<open>getFreePort\<close> gave it from then on, and a running task the
  one stored on it. An allocation is \<open>exclusive\<close> when the port returned is held by no
  closure and no running task at that moment; the code does nothing to make it so.
  \<open>unshared\<close>: no port is held twice.
\<close>

fun held_of :: "pc \<Rightarrow> task \<Rightarrow> int option" where
  "held_of (AwaitCreate p) t = Some p"
| "held_of (AwaitStart p c) t = Some p"
| "held_of (AwaitTimer p c) t = Some p"
| "held_of Finished t = (case t ''hostPort'' of Some (JNum x) \<Rightarrow> Some \<lfloor>x\<rfloor> | _ \<Rightarrow> None)"
| "held_of _ t = None"

definition held :: "state \<Rightarrow> nat \<Rightarrow> int option" where
  "held s k =
     (case tasks s (task_id (pipelines s ! k)) of
        None \<Rightarrow> None
      | Some t \<Rightarrow> held_of (cont (pipelines s ! k)) t)"

definition ports_held :: "state \<Rightarrow> int list" where
  "ports_held s = List.map_filter (held s) [0 ..< length (pipelines s)]"

fun exclusive :: "event \<Rightarrow> state \<Rightarrow> bool" where
  "exclusive (Resume k (PortDone env)) s \<longleftrightarrow>
     (case getFreePort env of Inl e \<Rightarrow> True | Inr p \<Rightarrow> p \<notin> set (ports_held s))"
| "exclusive _ s \<longleftrightarrow> True"

inductive exclusive_step :: "state \<Rightarrow> state \<Rightarrow> bool" where
  exclusive_stepI: "admissible e s \<Longrightarrow> exclusive e s \<Longrightarrow> fire e s = Some s' \<Longrightarrow> exclusive_step s s'"

definition unshared :: "state \<Rightarrow> bool" where
  "unshared s \<longleftrightarrow>
     (\<forall>j < length (pipelines s). \<forall>k < length (pipelines s). \<forall>p.
        held s j = Some p \<and> held s k = Some p \<longrightarrow> j = k)"

fun exclusive_run :: "event list \<Rightarrow> state \<Rightarrow> state option" where
  "exclusive_run [] s = Some s"
| "exclusive_run (e # es) s =
     (if admissible e s \<and> exclusive e s
      then (case fire e s of None \<Rightarrow> None | Some s' \<Rightarrow> exclusive_run es s')
      else None)"

section \<open>Auxiliary facts\<close>

lemma getFreePort_loop_fail:
  "(\<And>j. i \<le> j \<Longrightarrow> j < 100 \<Longrightarrow> \<not> snd (env j)) \<Longrightarrow>
   getFreePort_loop env i = Inl (JsError ''no free ports'')"
  by (induction env i rule: getFreePort_loop.induct) (simp add: Let_def)

lemma setField_Some: "ts i = Some t \<Longrightarrow> setField i f v ts = Some (ts(i \<mapsto> t(f \<mapsto> v)))"
  by (simp add: setField_def)

lemma catch_err_Some: "ts i = Some t \<Longrightarrow> catch_err i err ts = (Finished, ts(i \<mapsto> caught err t))"
  by (simp add: catch_err_def setField_def caught_def)

lemma pipeline_start_Some:
  "ts i = Some t \<Longrightarrow> pipeline_start i ts = (AwaitPull, ts(i \<mapsto> t(''status'' \<mapsto> JStr ''pulling'')))"
  by (simp add: pipeline_start_def setField_def)

lemma pipeline_resume_task:
  assumes "ts i = Some t"
  shows "pipeline_resume i c out ts = map_option (\<lambda>(c', t'). (c', ts(i \<mapsto> t'))) (task_resume c out t)"
  using assms
  by (cases "(c, out, t)" rule: task_resume.cases)
     (simp_all add: setField_Some catch_err_Some fun_upd_idem split: sum.splits)

lemma round_even_upper: "real_of_int (round_even q) \<le> q + 1 / 2"
  unfolding round_even_def Let_def by (auto; linarith)

lemma round_even_nonneg: "0 \<le> q \<Longrightarrow> 0 \<le> round_even q"
  unfolding round_even_def Let_def by (auto; linarith)

lemma round_even_of_int: "round_even (real_of_int n) = n"
  by (simp add: round_even_def)

lemma frac_bits_lower:
  assumes "0 \<le> x" and "x < 2 ^ 14" and "39 \<le> k + n"
  shows "39 \<le> frac_bits n k x"
  using assms(3)
proof (induction n arbitrary: k)
  case 0
  then show ?case by simp
next
  case (Suc n)
  show ?case
  proof (cases "2 ^ 52 \<le> x * 2 ^ k")
    case True
    have "39 \<le> k"
    proof (rule ccontr)
      assume "\<not> 39 \<le> k"
      then have "(2::real) ^ k \<le> 2 ^ 38" by (intro power_increasing) simp_all
      with assms(1) have "x * 2 ^ k \<le> x * 2 ^ 38" by (intro mult_left_mono)
      also have "\<dots> < 2 ^ 52" using assms(2) by simp
      finally show False using True by simp
    qed
    with True show ?thesis by simp
  next
    case False
    with Suc.IH [of "Suc k"] Suc.prems show ?thesis by simp
  qed
qed

lemma double_of_nonneg: "0 \<le> x \<Longrightarrow> 0 \<le> double_of x"
  by (simp add: double_of_def Let_def round_even_nonneg)

lemma double_of_below:
  assumes "0 \<le> x" and "x < 10000 - 1 / 2 ^ 40"
  shows "double_of x < 10000"
proof -
  define k where "k = frac_bits 1074 0 x"
  have "x < 2 ^ 14" using assms(2) by simp
  with assms(1) have k: "39 \<le> k" unfolding k_def by (intro frac_bits_lower) simp_all
  have "double_of x = real_of_int (round_even (x * 2 ^ k)) / 2 ^ k"
    by (simp add: double_of_def k_def Let_def)
  also have "\<dots> \<le> (x * 2 ^ k + 1 / 2) / 2 ^ k"
    by (intro divide_right_mono round_even_upper) simp
  also have "\<dots> = x + 1 / 2 ^ (Suc k)" by (simp add: field_simps)
  also have "\<dots> \<le> x + 1 / 2 ^ 40"
  proof -
    from k have "(2::real) ^ 40 \<le> 2 ^ Suc k" by (intro power_increasing) simp_all
    then have "1 / (2::real) ^ Suc k \<le> 1 / 2 ^ 40" by (intro divide_left_mono) simp_all
    then show ?thesis by simp
  qed
  also have "\<dots> < 10000" using assms(2) by simp
  finally show ?thesis .
qed

lemma unit_double_bounds:
  assumes "unit_double r"
  shows "0 \<le> r \<and> r \<le> 1 - 1 / 2 ^ 53"
proof -
  from assms obtain m k :: nat where r: "r < 1" "m < 2 ^ 53" "k \<le> 1074" "r = real m / 2 ^ k"
    by (auto simp: unit_double_def)
  have nonneg: "0 \<le> r" by (simp add: r(4))
  have "r \<le> 1 - 1 / 2 ^ 53"
  proof (cases "k \<le> 53")
    case True
    then obtain j where j: "53 = k + j" by (metis le_Suc_ex)
    have "r = real (m * 2 ^ j) / 2 ^ 53" by (simp add: r(4) j power_add)
    moreover from this r(1) have "real (m * 2 ^ j) < 2 ^ 53" by (simp add: field_simps)
    then have "m * 2 ^ j < 2 ^ 53" by (metis of_nat_less_iff of_nat_numeral of_nat_power)
    then have "m * 2 ^ j + 1 \<le> 2 ^ 53" by simp
    then have "real (m * 2 ^ j + 1) \<le> 2 ^ 53" by (metis of_nat_le_iff of_nat_numeral of_nat_power)
    then have "real (m * 2 ^ j) \<le> 2 ^ 53 - 1" by simp
    then have "real (m * 2 ^ j) / 2 ^ 53 \<le> (2 ^ 53 - 1) / 2 ^ 53" by (intro divide_right_mono) simp_all
    ultimately show ?thesis by (simp add: field_simps)
  next
    case False
    then have "54 \<le> k" by simp
    then have "(2::real) ^ 54 \<le> 2 ^ k" by (intro power_increasing) simp_all
    moreover have "real m < 2 ^ 53" using r(2) by (metis of_nat_less_iff of_nat_numeral of_nat_power)
    ultimately have "real m / 2 ^ k \<le> 2 ^ 53 / 2 ^ 54"
      by (intro frac_le) simp_all
    then have "real m / 2 ^ k \<le> 1 / 2" by simp
    moreover have "(1 / 2 :: real) \<le> 1 - 1 / 2 ^ 53" by simp
    ultimately show ?thesis unfolding r(4) by linarith
  qed
  with nonneg show ?thesis by simp
qed

lemma candidate_in_range:
  assumes "unit_double r"
  shows "in_range (candidate r)"
proof -
  from unit_double_bounds [OF assms] have r: "0 \<le> r" "r \<le> 1 - 1 / 2 ^ 53" by simp_all
  have lo: "0 \<le> r * 10000" using r(1) by simp
  have "r * 10000 \<le> (1 - 1 / 2 ^ 53) * 10000" using r(2) by simp
  also have "\<dots> < 10000 - 1 / 2 ^ 40" by simp
  finally have hi: "r * 10000 < 10000 - 1 / 2 ^ 40" .
  from double_of_nonneg [OF lo] have "0 \<le> \<lfloor>double_of (r * 10000)\<rfloor>" by simp
  moreover from double_of_below [OF lo hi] have "\<lfloor>double_of (r * 10000)\<rfloor> < 10000"
    by (simp add: floor_less_iff)
  ultimately show ?thesis by (simp add: in_range_def candidate_def port_min_def port_max_def)
qed

lemma double_of_int: "double_of (real_of_int n) = real_of_int n"
proof -
  have "real_of_int n * 2 ^ k = real_of_int (n * 2 ^ k)" for k :: nat by simp
  then have "round_even (real_of_int n * 2 ^ k) = n * 2 ^ k" for k :: nat
    by (simp only: round_even_of_int)
  then show ?thesis by (simp add: double_of_def Let_def)
qed

lemma candidate_exact: "r * 10000 = real_of_int n \<Longrightarrow> candidate r = n + 30000"
  by (simp add: candidate_def port_min_def port_max_def double_of_int)

lemma candidate_examples:
  "candidate 0 = 30000" "candidate (1 / 2) = 35000" "candidate (1 / 4) = 32500"
  by (rule candidate_exact [of _ 0, simplified] candidate_exact [of _ 5000, simplified]
        candidate_exact [of _ 2500, simplified]; simp)+

lemma frac_bits_eq:
  assumes "2 ^ 52 \<le> x * 2 ^ (j + d)" and "\<forall>i. j \<le> i \<and> i < j + d \<longrightarrow> x * 2 ^ i < 2 ^ 52"
    and "d \<le> n"
  shows "frac_bits n j x = j + d"
  using assms
proof (induction d arbitrary: j n)
  case 0
  then show ?case by (cases n) simp_all
next
  case (Suc d)
  then obtain n' where n: "n = Suc n'" by (cases n) simp_all
  from Suc.prems(2) have "x * 2 ^ j < 2 ^ 52" by simp
  moreover have "frac_bits n' (Suc j) x = Suc j + d"
    using Suc.prems n by (intro Suc.IH) simp_all
  ultimately show ?case by (simp add: n)
qed

lemma frac_bits_at:
  assumes "0 \<le> x" and "2 ^ 52 \<le> x * 2 ^ Suc k" and "x * 2 ^ k < 2 ^ 52" and "Suc k \<le> 1074"
  shows "frac_bits 1074 0 x = Suc k"
proof -
  have "x * 2 ^ i < 2 ^ 52" if "i < Suc k" for i
  proof -
    from that have "(2::real) ^ i \<le> 2 ^ k" by (intro power_increasing) simp_all
    with assms(1) have "x * 2 ^ i \<le> x * 2 ^ k" by (intro mult_left_mono)
    with assms(3) show ?thesis by simp
  qed
  with frac_bits_eq [of x 0 "Suc k" 1074] assms(2,4) show ?thesis by simp
qed

lemma candidate_sample_draw: "candidate sample_draw = 30121"
proof -
  let ?x = "54493555491183 / 2 ^ 52 * (10000::real)"
  have k: "frac_bits 1074 0 ?x = 46"
    using frac_bits_at [of ?x 45] by simp
  have "round_even (?x * 2 ^ 46) = 8514618045497344"
    by (simp add: round_even_def Let_def)
  with k have "double_of ?x = 121" by (simp add: double_of_def)
  then show ?thesis by (simp add: candidate_def sample_draw_def port_min_def port_max_def)
qed

lemma sample_draw_exact_product: "\<lfloor>sample_draw * 10000\<rfloor> = 120"
  by (simp add: sample_draw_def)

lemma unit_double_examples:
  "unit_double 0" "unit_double (1 / 2)" "unit_double (1 / 4)" "unit_double sample_draw"
proof -
  show "unit_double 0"
    unfolding unit_double_def by (rule conjI, simp, rule exI [of _ 0], rule exI [of _ 0], simp)
  show "unit_double (1 / 2)"
    unfolding unit_double_def by (rule conjI, simp, rule exI [of _ 1], rule exI [of _ 1], simp)
  show "unit_double (1 / 4)"
    unfolding unit_double_def by (rule conjI, simp, rule exI [of _ 1], rule exI [of _ 2], simp)
  show "unit_double sample_draw"
    unfolding unit_double_def sample_draw_def
    by (rule conjI, simp, rule exI [of _ 54493555491183], rule exI [of _ 52], simp)
qed

lemma getFreePort_loop_Inr:
  "getFreePort_loop env i = Inr p \<Longrightarrow>
   \<exists>k. i \<le> k \<and> k < 100 \<and> snd (env k) \<and> p = candidate (fst (env k)) \<and> (\<forall>j. i \<le> j \<and> j < k \<longrightarrow> \<not> snd (env j))"
proof (induction env i rule: getFreePort_loop.induct)
  case (1 env i)
  show ?case
  proof (cases "i < 100")
    case False
    with "1.prems" show ?thesis by simp
  next
    case lt: True
    show ?thesis
    proof (cases "snd (env i)")
      case True
      with lt "1.prems" have "p = candidate (fst (env i))" by (simp add: Let_def)
      with True lt show ?thesis by (intro exI [of _ i]) auto
    next
      case False
      with lt "1.prems" have "getFreePort_loop env (i + 1) = Inr p" by (simp add: Let_def)
      with "1.IH" lt False obtain k where k: "i + 1 \<le> k" "k < 100" "snd (env k)"
        "p = candidate (fst (env k))" "\<forall>j. i + 1 \<le> j \<and> j < k \<longrightarrow> \<not> snd (env j)"
        by blast
      have "\<forall>j. i \<le> j \<and> j < k \<longrightarrow> \<not> snd (env j)"
      proof (intro allI impI)
        fix j assume "i \<le> j \<and> j < k"
        then have "j = i \<or> (i + 1 \<le> j \<and> j < k)" by arith
        with False k(5) show "\<not> snd (env j)" by blast
      qed
      with k show ?thesis by (intro exI [of _ k]) simp
    qed
  qed
qed

lemma getFreePort_loop_Inl:
  "getFreePort_loop env i = Inl e \<Longrightarrow>
   e = JsError ''no free ports'' \<and> (\<forall>j. i \<le> j \<and> j < 100 \<longrightarrow> \<not> snd (env j))"
proof (induction env i rule: getFreePort_loop.induct)
  case (1 env i)
  show ?case
  proof (cases "i < 100")
    case False
    with "1.prems" show ?thesis by auto
  next
    case lt: True
    from lt "1.prems" have no: "\<not> snd (env i)"
      by (auto simp: Let_def split: if_splits)
    with lt "1.prems" have "getFreePort_loop env (i + 1) = Inl e" by (simp add: Let_def)
    with "1.IH" lt no have e: "e = JsError ''no free ports''"
      and rest: "\<forall>j. i + 1 \<le> j \<and> j < 100 \<longrightarrow> \<not> snd (env j)" by blast+
    have "\<forall>j. i \<le> j \<and> j < 100 \<longrightarrow> \<not> snd (env j)"
    proof (intro allI impI)
      fix j assume "i \<le> j \<and> j < 100"
      then have "j = i \<or> (i + 1 \<le> j \<and> j < 100)" by arith
      with no rest show "\<not> snd (env j)" by blast
    qed
    with e show ?thesis by simp
  qed
qed

lemma getFreePort_in_range:
  "random_ok env \<Longrightarrow> getFreePort env = Inr p \<Longrightarrow> in_range p"
  unfolding getFreePort_def random_ok_def
  by (drule getFreePort_loop_Inr) (auto intro: candidate_in_range)

lemma task_resume_agrees:
  assumes "task_resume c out t = Some (c', t')" and "agrees c t" and "outcome_ok out"
  shows "agrees c' t'"
  using assms
  by (cases "(c, out, t)" rule: task_resume.cases)
     (auto simp: bare_def settled_def caught_def getFreePort_in_range split: sum.splits)

lemma task_resume_shaped:
  assumes "task_resume c out t = Some (c', t')" and "shaped t"
  shows "shaped t' \<and> t' ''type'' = t ''type''"
  using assms
  by (cases "(c, out, t)" rule: task_resume.cases)
     (auto simp: shaped_def caught_def split: sum.splits)

lemma consistent_init: "consistent init"
  by (simp add: consistent_def init_def)

lemma consistent_task:
  assumes "consistent s" and "tasks s i = Some t"
  shows "\<exists>k. k < length (pipelines s) \<and> task_id (pipelines s ! k) = i \<and>
             agrees (cont (pipelines s ! k)) t \<and> shaped t"
proof -
  from assms have "i \<in> task_id ` set (pipelines s)" by (auto simp: consistent_def)
  then obtain P where P: "P \<in> set (pipelines s)" "task_id P = i" by auto
  then obtain k where k: "k < length (pipelines s)" "pipelines s ! k = P"
    by (auto simp: in_set_conv_nth)
  from assms P have "agrees (cont P) t \<and> shaped t" by (fastforce simp: consistent_def)
  with k P show ?thesis by auto
qed

lemma consistent_pipeline:
  assumes "consistent s" and "k < length (pipelines s)"
  shows "\<exists>t. tasks s (task_id (pipelines s ! k)) = Some t \<and> agrees (cont (pipelines s ! k)) t \<and>
             shaped t \<and> DeployOk (task_id (pipelines s ! k)) \<in> set (sent s)"
  using assms by (simp add: consistent_def)

lemma consistent_other:
  assumes "consistent s" and "k < length (pipelines s)" and "j < length (pipelines s)" and "j \<noteq> k"
  shows "task_id (pipelines s ! j) \<noteq> task_id (pipelines s ! k)"
proof -
  from assms(1) have "distinct (map task_id (pipelines s))" by (simp add: consistent_def)
  with assms(2-4) show ?thesis by (auto simp: distinct_conv_nth)
qed

lemma deploy_bad: "\<not> includes_type ty \<Longrightarrow>
  deploy uuid ty s = s\<lparr>sent := sent s @ [BadRequest ''type must be desktop or server'']\<rparr>"
  by (simp add: deploy_def)

lemma deploy_ok: "includes_type ty \<Longrightarrow>
  deploy uuid ty s =
    \<lparr>tasks = (tasks s)(uuid \<mapsto> [''status'' \<mapsto> JStr ''pulling'', ''type'' \<mapsto> ty]),
     pipelines = pipelines s @ [\<lparr>task_id = uuid, cont = AwaitPull\<rparr>],
     sent = sent s @ [DeployOk uuid]\<rparr>"
  by (simp add: deploy_def createTask_def pipeline_start_def setField_def fun_upd_twist)

lemma resume_effect:
  assumes "consistent s" and "resume k out s = Some s'"
  obtains t c' t' where "k < length (pipelines s)"
    and "tasks s (task_id (pipelines s ! k)) = Some t"
    and "task_resume (cont (pipelines s ! k)) out t = Some (c', t')"
    and "s' = s\<lparr>tasks := (tasks s)(task_id (pipelines s ! k) \<mapsto> t'),
                pipelines := (pipelines s)[k := (pipelines s ! k)\<lparr>cont := c'\<rparr>]\<rparr>"
proof -
  from assms(2) have k: "k < length (pipelines s)"
    by (auto simp: resume_def split: if_splits)
  with assms(1) obtain t where t: "tasks s (task_id (pipelines s ! k)) = Some t"
    using consistent_pipeline by blast
  from assms(2) k t obtain c' t' where
    "task_resume (cont (pipelines s ! k)) out t = Some (c', t')"
    "s' = s\<lparr>tasks := (tasks s)(task_id (pipelines s ! k) \<mapsto> t'),
            pipelines := (pipelines s)[k := (pipelines s ! k)\<lparr>cont := c'\<rparr>]\<rparr>"
    by (auto simp: resume_def Let_def pipeline_resume_task split: option.splits)
  with k t that show thesis by blast
qed

lemma consistent_resume:
  assumes "consistent s" and "resume k out s = Some s'" and "outcome_ok out"
  shows "consistent s'"
proof -
  from assms(1,2) obtain t c' t' where k: "k < length (pipelines s)"
    and t: "tasks s (task_id (pipelines s ! k)) = Some t"
    and r: "task_resume (cont (pipelines s ! k)) out t = Some (c', t')"
    and s': "s' = s\<lparr>tasks := (tasks s)(task_id (pipelines s ! k) \<mapsto> t'),
                pipelines := (pipelines s)[k := (pipelines s ! k)\<lparr>cont := c'\<rparr>]\<rparr>"
    by (rule resume_effect)
  let ?P = "pipelines s ! k"
  let ?i = "task_id ?P"
  from assms(1) k t have old: "agrees (cont ?P) t" "shaped t" "DeployOk ?i \<in> set (sent s)"
    using consistent_pipeline [of s k] by auto
  from r old(1) assms(3) have new1: "agrees c' t'" by (rule task_resume_agrees)
  from r old(2) have new2: "shaped t'" using task_resume_shaped by blast
  have ids: "map task_id (pipelines s') = map task_id (pipelines s)"
    using k by (simp add: s' map_update list_update_same_conv)
  have len: "length (pipelines s') = length (pipelines s)" by (simp add: s')
  have d: "distinct (map task_id (pipelines s'))"
    using assms(1) ids by (simp add: consistent_def)
  have "task_id ` set (pipelines s') = set (map task_id (pipelines s'))" by simp
  also have "\<dots> = task_id ` set (pipelines s)" using ids by simp
  also have "\<dots> = dom (tasks s)" using assms(1) by (simp add: consistent_def)
  also have "\<dots> = dom (tasks s')" using t by (auto simp: s')
  finally have dm: "task_id ` set (pipelines s') = dom (tasks s')" .
  have each: "\<forall>P \<in> set (pipelines s'). \<exists>u. tasks s' (task_id P) = Some u \<and> agrees (cont P) u \<and>
      shaped u \<and> DeployOk (task_id P) \<in> set (sent s')"
  proof
    fix Q assume "Q \<in> set (pipelines s')"
    then obtain j where j: "j < length (pipelines s)" "Q = pipelines s' ! j"
      using len by (auto simp: in_set_conv_nth)
    show "\<exists>u. tasks s' (task_id Q) = Some u \<and> agrees (cont Q) u \<and> shaped u \<and>
        DeployOk (task_id Q) \<in> set (sent s')"
    proof (cases "j = k")
      case True
      with j k have "Q = ?P\<lparr>cont := c'\<rparr>" by (simp add: s')
      with new1 new2 old(3) show ?thesis by (simp add: s')
    next
      case False
      with j k have Q: "Q = pipelines s ! j" by (simp add: s')
      from assms(1) k j(1) False have "task_id Q \<noteq> ?i" unfolding Q by (rule consistent_other)
      moreover from assms(1) j(1) obtain u where "tasks s (task_id Q) = Some u"
        "agrees (cont Q) u" "shaped u" "DeployOk (task_id Q) \<in> set (sent s)"
        unfolding Q using consistent_pipeline by blast
      ultimately show ?thesis by (simp add: s')
    qed
  qed
  have "\<forall>u. StatusOk u \<in> set (sent s') \<longrightarrow> (\<exists>c. agrees c u)"
    using assms(1) by (simp add: s' consistent_def)
  moreover have "\<forall>j. DeployOk j \<in> set (sent s') \<longrightarrow> j \<in> dom (tasks s')"
    using assms(1) by (auto simp: s' consistent_def)
  ultimately show ?thesis using d dm each by (simp add: consistent_def)
qed

lemma consistent_deploy:
  assumes "consistent s" and "includes_type ty \<longrightarrow> uuid \<notin> dom (tasks s)"
  shows "consistent (deploy uuid ty s)"
proof (cases "includes_type ty")
  case False
  with assms(1) show ?thesis by (auto simp: deploy_bad consistent_def)
next
  case True
  from assms True have fresh: "uuid \<notin> task_id ` set (pipelines s)"
    by (simp add: consistent_def)
  have new: "agrees AwaitPull [''status'' \<mapsto> JStr ''pulling'', ''type'' \<mapsto> ty]"
    "shaped [''status'' \<mapsto> JStr ''pulling'', ''type'' \<mapsto> ty]"
    using True by (simp_all add: bare_def shaped_def)
  have "\<forall>P \<in> set (pipelines s). \<exists>t. tasks s (task_id P) = Some t \<and> agrees (cont P) t \<and> shaped t
         \<and> DeployOk (task_id P) \<in> set (sent s)"
    using assms(1) by (simp add: consistent_def)
  moreover have "\<forall>P \<in> set (pipelines s). task_id P \<noteq> uuid" using fresh by auto
  ultimately have old: "\<forall>P \<in> set (pipelines s).
      \<exists>t. ((tasks s)(uuid \<mapsto> [''status'' \<mapsto> JStr ''pulling'', ''type'' \<mapsto> ty])) (task_id P) = Some t \<and>
          agrees (cont P) t \<and> shaped t \<and> DeployOk (task_id P) \<in> set (sent s @ [DeployOk uuid])"
    by auto
  have "\<forall>j. DeployOk j \<in> set (sent s) \<longrightarrow> j \<in> dom (tasks s)"
    using assms(1) by (simp add: consistent_def)
  then have sent: "\<forall>j. DeployOk j \<in> set (sent s @ [DeployOk uuid]) \<longrightarrow>
      j \<in> dom ((tasks s)(uuid \<mapsto> [''status'' \<mapsto> JStr ''pulling'', ''type'' \<mapsto> ty]))"
    by auto
  from assms(1) fresh old new sent True show ?thesis
    by (simp add: deploy_ok consistent_def)
qed

lemma consistent_status:
  assumes "consistent s"
  shows "consistent (status i s)"
proof (cases "tasks s i")
  case None
  with assms show ?thesis by (auto simp: status_def consistent_def)
next
  case (Some t)
  with assms obtain c where "agrees c t" using consistent_task by blast
  with assms Some show ?thesis by (auto simp: status_def consistent_def)
qed

lemma admissible_outcome: "admissible (Resume k out) s \<Longrightarrow> outcome_ok out"
  by (cases out) simp_all

lemma consistent_step:
  assumes "consistent s" and "step s s'"
  shows "consistent s'"
  using assms(2)
proof cases
  case (stepI e)
  show ?thesis
  proof (cases e)
    case (Deploy uuid ty)
    with stepI assms(1) show ?thesis by (auto intro: consistent_deploy)
  next
    case (Status i)
    with stepI assms(1) show ?thesis by (auto intro: consistent_status)
  next
    case (Resume k out)
    with stepI assms(1) show ?thesis by (auto intro: consistent_resume admissible_outcome)
  qed
qed

lemma steps_consistent: "step\<^sup>*\<^sup>* s s' \<Longrightarrow> consistent s \<Longrightarrow> consistent s'"
  by (induction rule: rtranclp_induct) (auto intro: consistent_step)

lemma reachable_consistent: "reachable s \<Longrightarrow> consistent s"
  unfolding reachable_def using steps_consistent consistent_init by blast

lemma reachable_step: "reachable s \<Longrightarrow> step s s' \<Longrightarrow> reachable s'"
  unfolding reachable_def by (rule rtranclp.rtrancl_into_rtrancl)

lemma reachable_steps: "reachable s \<Longrightarrow> step\<^sup>*\<^sup>* s s' \<Longrightarrow> reachable s'"
  unfolding reachable_def by (rule rtranclp_trans)

lemma run_steps: "run es s = Some s' \<Longrightarrow> step\<^sup>*\<^sup>* s s'"
proof (induction es arbitrary: s)
  case Nil
  then show ?case by simp
next
  case (Cons e es)
  then obtain s1 where "admissible e s" "fire e s = Some s1" "run es s1 = Some s'"
    by (auto split: if_splits option.splits)
  with Cons.IH show ?case by (meson converse_rtranclp_into_rtranclp stepI)
qed

lemma run_reachable: "run es init = Some s \<Longrightarrow> reachable s"
  unfolding reachable_def by (rule run_steps)

lemma step_task:
  assumes "consistent s" and "step s s'" and "tasks s i = Some t"
  shows "tasks s' i = Some t \<or>
         (\<exists>c out c' t'. agrees c t \<and> outcome_ok out \<and> task_resume c out t = Some (c', t') \<and>
            tasks s' i = Some t')"
  using assms(2)
proof cases
  case (stepI e)
  show ?thesis
  proof (cases e)
    case (Deploy uuid ty)
    show ?thesis
    proof (cases "includes_type ty")
      case False
      with Deploy stepI assms(3) show ?thesis by (auto simp: deploy_bad)
    next
      case True
      with Deploy stepI assms(3) have "uuid \<noteq> i" by auto
      with True Deploy stepI assms(3) show ?thesis by (auto simp: deploy_ok)
    qed
  next
    case (Status j)
    with stepI assms(3) show ?thesis by (auto simp: status_def)
  next
    case (Resume k out)
    with stepI have r: "resume k out s = Some s'" and ok: "outcome_ok out"
      by (auto intro: admissible_outcome)
    from assms(1) r obtain u c' u' where k: "k < length (pipelines s)"
      and u: "tasks s (task_id (pipelines s ! k)) = Some u"
      and tr: "task_resume (cont (pipelines s ! k)) out u = Some (c', u')"
      and s': "s' = s\<lparr>tasks := (tasks s)(task_id (pipelines s ! k) \<mapsto> u'),
                pipelines := (pipelines s)[k := (pipelines s ! k)\<lparr>cont := c'\<rparr>]\<rparr>"
      by (rule resume_effect)
    show ?thesis
    proof (cases "task_id (pipelines s ! k) = i")
      case False
      with assms(3) show ?thesis by (simp add: s')
    next
      case True
      with u assms(3) have "u = t" by simp
      moreover from assms(1) k u have "agrees (cont (pipelines s ! k)) u"
        using consistent_pipeline [of s k] by auto
      ultimately show ?thesis using tr ok True by (auto simp: s')
    qed
  qed
qed

lemma step_new_task:
  assumes "consistent s" and "step s s'" and "tasks s i = None"
  shows "tasks s' i = None \<or>
         (\<exists>ty. includes_type ty \<and> s' = deploy i ty s \<and>
            tasks s' i = Some [''status'' \<mapsto> JStr ''pulling'', ''type'' \<mapsto> ty])"
  using assms(2)
proof cases
  case (stepI e)
  show ?thesis
  proof (cases e)
    case (Deploy uuid ty)
    show ?thesis
    proof (cases "includes_type ty")
      case False
      with Deploy stepI assms(3) show ?thesis by (auto simp: deploy_bad)
    next
      case True
      show ?thesis
      proof (cases "uuid = i")
        case False
        with True Deploy stepI assms(3) show ?thesis by (auto simp: deploy_ok)
      next
        case same: True
        from True have "tasks (deploy uuid ty s) uuid =
            Some [''status'' \<mapsto> JStr ''pulling'', ''type'' \<mapsto> ty]"
          by (simp add: deploy_ok)
        with True same Deploy stepI show ?thesis by auto
      qed
    qed
  next
    case (Status j)
    with stepI assms(3) show ?thesis by (auto simp: status_def)
  next
    case (Resume k out)
    with stepI have r: "resume k out s = Some s'" by simp
    from assms(1) r obtain u c' u' where
      u: "tasks s (task_id (pipelines s ! k)) = Some u"
      and s': "s' = s\<lparr>tasks := (tasks s)(task_id (pipelines s ! k) \<mapsto> u'),
                pipelines := (pipelines s)[k := (pipelines s ! k)\<lparr>cont := c'\<rparr>]\<rparr>"
      by (rule resume_effect)
    from u assms(3) have "task_id (pipelines s ! k) \<noteq> i" by auto
    with assms(3) show ?thesis by (simp add: s')
  qed
qed


lemma agrees_status: "agrees c t \<Longrightarrow> \<exists>a. t ''status'' = Some (JStr a)"
  by (cases c) (auto simp: settled_def)

lemma forward_edges:
  "forward ''queued'' ''pulling''" "forward ''pulling'' ''creating''"
  "forward ''creating'' ''starting''" "forward ''starting'' ''running''"
  "forward ''pulling'' ''error''" "forward ''creating'' ''error''" "forward ''starting'' ''error''"
  by (simp_all add: forward_def pipeline_order_def terminal_def)

lemma not_terminal:
  "\<not> terminal ''queued''" "\<not> terminal ''pulling''" "\<not> terminal ''creating''"
  "\<not> terminal ''starting''"
  by (simp_all add: terminal_def)

lemma task_resume_forward:
  assumes "task_resume c out t = Some (c', t')" and "agrees c t"
  shows "\<exists>a b. t ''status'' = Some (JStr a) \<and> t' ''status'' = Some (JStr b) \<and>
               (a = b \<or> forward a b) \<and> \<not> terminal a"
  using assms
  by (cases "(c, out, t)" rule: task_resume.cases)
     (auto simp: caught_def forward_edges not_terminal split: sum.splits)

lemma getFreePort_first: "snd (env 0) \<Longrightarrow> getFreePort env = Inr (candidate (fst (env 0)))"
  by (simp add: getFreePort_def Let_def)

lemmas run_defs = init_def deploy_def includes_type_def createTask_def pipeline_start_def
  setField_def catch_err_def resume_def status_def random_ok_def getFreePort_first
  candidate_examples unit_double_examples Let_def

lemma getFreePort_exhausted:
  "\<forall>i<100. \<not> snd (env i) \<Longrightarrow> getFreePort env = Inl (JsError ''no free ports'')"
  unfolding getFreePort_def by (rule getFreePort_loop_fail) simp

lemma run_snoc:
  "run (es @ [e]) s = (case run es s of None \<Rightarrow> None
     | Some s1 \<Rightarrow> if admissible e s1 then fire e s1 else None)"
  by (induction es arbitrary: s) (auto split: option.splits)

lemma after_reachable: "reachable (after es)"
proof (cases "run es init")
  case None
  then show ?thesis by (simp add: after_def reachable_def)
next
  case (Some s)
  then show ?thesis by (simp add: after_def run_reachable)
qed

lemma after_step: "run (es @ [e]) init \<noteq> None \<Longrightarrow> step (after es) (after (es @ [e]))"
  by (auto simp: run_snoc after_def split: option.splits if_splits intro: stepI)

lemma settled_no_resume: "settled t \<Longrightarrow> agrees c t \<Longrightarrow> task_resume c out t = None"
  by (cases c) (auto simp: settled_def)

lemma settled_stable:
  assumes "step\<^sup>*\<^sup>* s s'" and "consistent s" and "tasks s i = Some t" and "settled t"
  shows "tasks s' i = Some t"
  using assms
proof (induction rule: rtranclp_induct)
  case base
  then show ?case by simp
next
  case (step y z)
  then have y: "tasks y i = Some t" and c: "consistent y" by (auto intro: steps_consistent)
  from step_task [OF c step.hyps(2) y] step.prems(3) show ?case
    by (auto simp: settled_no_resume)
qed

lemma failure_of_resume:
  assumes "failure_of c out = Some e"
  shows "task_resume c out t = Some (Finished, caught e t)"
  using assms
  by (cases "(c, out)" rule: failure_of.cases) (auto split: sum.splits)

lemma agrees_caught:
  assumes "agrees c t" and "failure_of c out = Some e"
  shows "settled (caught e t)"
  using assms
  by (cases "(c, out)" rule: failure_of.cases) (auto simp: settled_def caught_def bare_def)

lemma consistent_no_fault: "consistent s \<Longrightarrow> P \<in> set (pipelines s) \<Longrightarrow> cont P \<noteq> Faulted"
  by (fastforce simp: consistent_def)

lemma agrees_running:
  "agrees c t \<Longrightarrow> t ''status'' = Some (JStr ''running'') \<Longrightarrow>
   \<exists>h p. t ''containerId'' = Some (JStr h) \<and> in_range p \<and> t ''hostPort'' = Some (JNum (real_of_int p))"
  by (cases c) (auto simp: settled_def)

lemma agrees_not_running:
  "agrees c t \<Longrightarrow> t ''status'' \<noteq> Some (JStr ''running'') \<Longrightarrow>
   t ''containerId'' = None \<and> t ''hostPort'' = None"
  by (cases c) (auto simp: settled_def bare_def)

lemmas after_defs = after_def task_field_def full_run_def run_defs

lemma task_resume_handle:
  assumes "task_resume c out t = Some (c', t')" and "agrees c t"
  shows "t ''containerId'' = None \<and> t ''hostPort'' = None \<and>
         ((t' ''containerId'' = None \<and> t' ''hostPort'' = None) \<or>
          (t ''status'' = Some (JStr ''starting'') \<and> t' ''status'' = Some (JStr ''running'')))"
  using assms
  by (cases "(c, out, t)" rule: task_resume.cases)
     (auto simp: caught_def bare_def split: sum.splits)

lemma after_step_eval:
  "run (es @ [e]) init \<noteq> None \<Longrightarrow> fs = es @ [e] \<Longrightarrow> step (after es) (after fs)"
  by (simp add: after_step)

lemma forward_trans: "forward a b \<Longrightarrow> forward b c \<Longrightarrow> forward a c"
  by (auto simp: forward_def terminal_def split: option.splits)

lemma forward_asym: "forward a b \<Longrightarrow> \<not> forward b a"
  by (auto simp: forward_def terminal_def split: option.splits)

lemma forward_irrefl: "\<not> forward a a"
  by (auto simp: forward_def terminal_def split: option.splits)

lemma step_status:
  assumes "consistent s" and "step s s'" and "tasks s i = Some t"
  shows "\<exists>t' a b. tasks s' i = Some t' \<and> t ''status'' = Some (JStr a) \<and>
           t' ''status'' = Some (JStr b) \<and> (a = b \<or> forward a b)"
proof -
  from consistent_task [OF assms(1,3)] obtain k where "agrees (cont (pipelines s ! k)) t" by blast
  then obtain a where a: "t ''status'' = Some (JStr a)" using agrees_status by blast
  from step_task [OF assms] consider "tasks s' i = Some t"
    | c0 out c' t' where "agrees c0 t" "task_resume c0 out t = Some (c', t')" "tasks s' i = Some t'"
    by blast
  then show ?thesis
  proof cases
    case 1
    with a show ?thesis by auto
  next
    case 2
    from task_resume_forward [OF 2(2) 2(1)] 2(3) show ?thesis by auto
  qed
qed

lemma steps_status:
  assumes "step\<^sup>*\<^sup>* s s'" and "consistent s" and "tasks s i = Some t"
  shows "\<exists>t' a b. tasks s' i = Some t' \<and> t ''status'' = Some (JStr a) \<and>
           t' ''status'' = Some (JStr b) \<and> (a = b \<or> forward a b)"
  using assms
proof (induction rule: rtranclp_induct)
  case base
  from consistent_task [OF base(1,2)] obtain k where "agrees (cont (pipelines s ! k)) t" by blast
  then obtain a where "t ''status'' = Some (JStr a)" using agrees_status by blast
  with base show ?case by auto
next
  case (step y z)
  from step.IH [OF step.prems] obtain u a b where u: "tasks y i = Some u"
    "t ''status'' = Some (JStr a)" "u ''status'' = Some (JStr b)" "a = b \<or> forward a b"
    by blast
  from step.hyps(1) step.prems(1) have "consistent y" by (rule steps_consistent)
  from step_status [OF this step.hyps(2) u(1)] u(3) obtain v c where
    "tasks z i = Some v" "v ''status'' = Some (JStr c)" "b = c \<or> forward b c"
    by auto
  with u show ?case by (auto intro: forward_trans)
qed

lemma agrees_terminal:
  "agrees c t \<Longrightarrow> t ''status'' = Some (JStr a) \<Longrightarrow> terminal a \<Longrightarrow> settled t"
  by (cases c) (auto simp: terminal_def)

lemma ports_held_iff: "p \<in> set (ports_held s) \<longleftrightarrow> (\<exists>k < length (pipelines s). held s k = Some p)"
  by (force simp: ports_held_def List.map_filter_def)

lemma exclusive_step_step: "exclusive_step s s' \<Longrightarrow> step s s'"
  by (auto elim: exclusive_step.cases intro: stepI)

lemma exclusive_steps_steps: "exclusive_step\<^sup>*\<^sup>* s s' \<Longrightarrow> step\<^sup>*\<^sup>* s s'"
  by (induction rule: rtranclp_induct) (auto dest: exclusive_step_step)

lemma task_resume_held:
  assumes "task_resume c out t = Some (c', t')" and "agrees c t"
  shows "held_of c' t' = held_of c t \<or> held_of c' t' = None \<or>
         (\<exists>env p. out = PortDone env \<and> getFreePort env = Inr p \<and> held_of c' t' = Some p)"
  using assms
  by (cases "(c, out, t)" rule: task_resume.cases)
     (auto simp: caught_def bare_def split: sum.splits)

lemma unshared_init: "unshared init"
  by (simp add: unshared_def init_def)

lemma held_same:
  assumes "k < length (pipelines s)" and "pipelines s' ! k = pipelines s ! k"
    and "tasks s' (task_id (pipelines s ! k)) = tasks s (task_id (pipelines s ! k))"
  shows "held s' k = held s k"
  using assms by (simp add: held_def split: option.splits)

lemma unshared_resume:
  assumes "consistent s" and "unshared s" and "resume k out s = Some s'"
    and "exclusive (Resume k out) s"
  shows "unshared s'"
proof -
  from assms(1,3) obtain t c' t' where k: "k < length (pipelines s)"
    and t: "tasks s (task_id (pipelines s ! k)) = Some t"
    and r: "task_resume (cont (pipelines s ! k)) out t = Some (c', t')"
    and s': "s' = s\<lparr>tasks := (tasks s)(task_id (pipelines s ! k) \<mapsto> t'),
                pipelines := (pipelines s)[k := (pipelines s ! k)\<lparr>cont := c'\<rparr>]\<rparr>"
    by (rule resume_effect)
  from consistent_pipeline [OF assms(1) k] t have ag: "agrees (cont (pipelines s ! k)) t" by simp
  have len: "length (pipelines s') = length (pipelines s)" by (simp add: s')
  have other: "held s' j = held s j" if "j < length (pipelines s)" "j \<noteq> k" for j
  proof -
    from consistent_other [OF assms(1) k that] have "task_id (pipelines s ! j) \<noteq> task_id (pipelines s ! k)" .
    with that show ?thesis by (simp add: held_def s' split: option.splits)
  qed
  have here: "held s' k = held_of c' t'" using k by (simp add: held_def s')
  have was: "held s k = held_of (cont (pipelines s ! k)) t" using t by (simp add: held_def)
  from task_resume_held [OF r ag] have "held s' k = held s k \<or> held s' k = None \<or>
      (\<exists>env p. out = PortDone env \<and> getFreePort env = Inr p \<and> held s' k = Some p)"
    by (simp only: here was)
  moreover have "p \<notin> set (ports_held s)" if "out = PortDone env" "getFreePort env = Inr p" for env p
    using assms(4) that by simp
  ultimately have new: "held s' k = held s k \<or> held s' k = None \<or>
      (\<exists>p. held s' k = Some p \<and> p \<notin> set (ports_held s))"
    by metis
  show ?thesis
    unfolding unshared_def len
  proof (intro allI impI)
    fix i j p
    assume i: "i < length (pipelines s)" and j: "j < length (pipelines s)"
      and h: "held s' i = Some p \<and> held s' j = Some p"
    show "i = j"
    proof (rule ccontr)
      assume ne: "i \<noteq> j"
      have claim: False if a: "a < length (pipelines s)" and b: "b < length (pipelines s)"
        and ab: "a \<noteq> b" and ha: "held s' a = Some p" and hb: "held s' b = Some p"
        and ak: "a = k" for a b
      proof -
        from b ab ak have hb': "held s b = Some p" using other [of b] hb by simp
        from new ha ak consider "held s k = Some p" | "p \<notin> set (ports_held s)" by auto
        then show False
        proof cases
          case 1
          with hb' assms(2) k b ab ak show False by (auto simp: unshared_def)
        next
          case 2
          with hb' b show False by (auto simp: ports_held_iff)
        qed
      qed
      show False
      proof (cases "i = k")
        case True
        from claim [OF i j ne _ _ True] h show False by simp
      next
        case ik: False
        show False
        proof (cases "j = k")
          case True
          from ne have "j \<noteq> i" by simp
          from claim [OF j i this _ _ True] h show False by simp
        next
          case False
          with ik i j h have "held s i = Some p" "held s j = Some p" using other by simp_all
          with assms(2) i j ne show False by (auto simp: unshared_def)
        qed
      qed
    qed
  qed
qed

lemma unshared_deploy:
  assumes "consistent s" and "unshared s" and "includes_type ty \<longrightarrow> uuid \<notin> dom (tasks s)"
  shows "unshared (deploy uuid ty s)"
proof (cases "includes_type ty")
  case False
  then have "held (deploy uuid ty s) = held s" by (auto simp: deploy_bad held_def fun_eq_iff split: option.splits)
  with assms(2) False show ?thesis by (simp add: unshared_def deploy_bad)
next
  case True
  let ?s' = "deploy uuid ty s"
  from assms True have fresh: "uuid \<notin> task_id ` set (pipelines s)" by (simp add: consistent_def)
  have old: "held ?s' j = held s j" if "j < length (pipelines s)" for j
  proof -
    from that fresh have "task_id (pipelines s ! j) \<noteq> uuid" by (metis nth_mem imageI)
    with that True show ?thesis by (simp add: held_def deploy_ok nth_append split: option.splits)
  qed
  have new: "held ?s' (length (pipelines s)) = None"
    using True by (simp add: held_def deploy_ok)
  have len: "length (pipelines ?s') = Suc (length (pipelines s))"
    using True by (simp add: deploy_ok)
  show ?thesis
    unfolding unshared_def len
  proof (intro allI impI)
    fix i j p
    assume i: "i < Suc (length (pipelines s))" and j: "j < Suc (length (pipelines s))"
      and h: "held ?s' i = Some p \<and> held ?s' j = Some p"
    from h new have "i \<noteq> length (pipelines s)" "j \<noteq> length (pipelines s)" by auto
    with i j have i': "i < length (pipelines s)" and j': "j < length (pipelines s)" by simp_all
    with h old have "held s i = Some p" "held s j = Some p" by simp_all
    with assms(2) i' j' show "i = j" by (auto simp: unshared_def)
  qed
qed

lemma unshared_status: "unshared s \<Longrightarrow> unshared (status i s)"
proof -
  have "held (status i s) = held s" by (auto simp: status_def held_def fun_eq_iff split: option.splits)
  then show "unshared s \<Longrightarrow> unshared (status i s)" by (simp add: unshared_def status_def)
qed

lemma unshared_step:
  assumes "consistent s" and "unshared s" and "exclusive_step s s'"
  shows "unshared s'"
  using assms(3)
proof cases
  case (exclusive_stepI e)
  show ?thesis
  proof (cases e)
    case (Deploy uuid ty)
    with exclusive_stepI assms(1,2) show ?thesis by (auto intro: unshared_deploy)
  next
    case (Status i)
    with exclusive_stepI assms(2) show ?thesis by (auto intro: unshared_status)
  next
    case (Resume k out)
    with exclusive_stepI assms(1,2) show ?thesis by (auto intro: unshared_resume)
  qed
qed

lemma exclusive_steps_unshared:
  "exclusive_step\<^sup>*\<^sup>* s s' \<Longrightarrow> consistent s \<Longrightarrow> unshared s \<Longrightarrow> consistent s' \<and> unshared s'"
proof (induction rule: rtranclp_induct)
  case base
  then show ?case by simp
next
  case (step y z)
  then have "consistent y" "unshared y" by simp_all
  with step.hyps(2) show ?case
    by (auto intro: unshared_step consistent_step exclusive_step_step)
qed

lemma exclusive_run_steps:
  "exclusive_run es s = Some s' \<Longrightarrow> exclusive_step\<^sup>*\<^sup>* s s' \<and> run es s = Some s'"
proof (induction es arbitrary: s)
  case Nil
  then show ?case by simp
next
  case (Cons e es)
  then obtain s1 where *: "admissible e s" "exclusive e s" "fire e s = Some s1"
    "exclusive_run es s1 = Some s'"
    by (auto split: if_splits option.splits)
  from Cons.IH [OF *(4)] have "exclusive_step\<^sup>*\<^sup>* s1 s'" "run es s1 = Some s'" by simp_all
  moreover from * have "exclusive_step s s1" by (auto intro: exclusive_stepI)
  ultimately show ?case using * by (auto intro: converse_rtranclp_into_rtranclp)
qed

lemma agrees_running_held:
  assumes "agrees c t" and "t ''status'' = Some (JStr ''running'')"
  shows "\<exists>p. t ''hostPort'' = Some (JNum (real_of_int p)) \<and> held_of c t = Some p"
  using assms by (cases c) (auto simp: settled_def)

section \<open>The claims\<close>

subsection \<open>C1: the status only moves forward\<close>

text \<open>
  Claim C1. From any reachable state, along any further run of the server, the status of
  a task that exists either stays what it was or has moved to a later stage of the order
  queued, pulling, creating, starting, running, or from a stage before running to error;
  it has never moved backward, and a task whose status is running or error is the same
  object ever after. A task that appears in a step was created with status queued and
  is at pulling when the step ends.
\<close>

theorem status_moves_forward:
  assumes "reachable s" and "step\<^sup>*\<^sup>* s s'"
  shows "(\<forall>t. tasks s i = Some t \<longrightarrow>
            (\<exists>t' a b. tasks s' i = Some t' \<and> t ''status'' = Some (JStr a) \<and>
               t' ''status'' = Some (JStr b) \<and> (a = b \<or> forward a b) \<and> \<not> forward b a \<and>
               (terminal a \<longrightarrow> t' = t))) \<and>
         (tasks s i = None \<and> step s s' \<longrightarrow> tasks s' i = None \<or>
            (\<exists>ty t0 t'. createTask i ty (tasks s) i = Some t0 \<and>
               t0 ''status'' = Some (JStr ''queued'') \<and> tasks s' i = Some t' \<and>
               t' ''status'' = Some (JStr ''pulling'') \<and> forward ''queued'' ''pulling''))"
proof (intro conjI allI impI)
  from assms(1) have c: "consistent s" by (rule reachable_consistent)
  {
    fix t assume t: "tasks s i = Some t"
    from steps_status [OF assms(2) c t] obtain t' a b where *: "tasks s' i = Some t'"
      "t ''status'' = Some (JStr a)" "t' ''status'' = Some (JStr b)" "a = b \<or> forward a b"
      by blast
    have nb: "\<not> forward b a"
    proof (cases "a = b")
      case True
      then show ?thesis using forward_irrefl by blast
    next
      case False
      with *(4) show ?thesis using forward_asym by blast
    qed
    have "t' = t" if "terminal a"
    proof -
      from consistent_task [OF c t] obtain k where "agrees (cont (pipelines s ! k)) t" by blast
      from agrees_terminal [OF this *(2) that] have "settled t" .
      from settled_stable [OF assms(2) c t this] *(1) show ?thesis by simp
    qed
    with * nb show "\<exists>t' a b. tasks s' i = Some t' \<and> t ''status'' = Some (JStr a) \<and>
               t' ''status'' = Some (JStr b) \<and> (a = b \<or> forward a b) \<and> \<not> forward b a \<and>
               (terminal a \<longrightarrow> t' = t)"
      by blast
  }
  {
    assume "tasks s i = None \<and> step s s'"
    then have n: "tasks s i = None" and st: "step s s'" by simp_all
    from step_new_task [OF c st n] consider "tasks s' i = None"
      | ty where "tasks s' i = Some [''status'' \<mapsto> JStr ''pulling'', ''type'' \<mapsto> ty]"
      by auto
    then show "tasks s' i = None \<or>
            (\<exists>ty t0 t'. createTask i ty (tasks s) i = Some t0 \<and>
               t0 ''status'' = Some (JStr ''queued'') \<and> tasks s' i = Some t' \<and>
               t' ''status'' = Some (JStr ''pulling'') \<and> forward ''queued'' ''pulling'')"
    proof cases
      case 1
      then show ?thesis by simp
    next
      case 2
      then show ?thesis
        by (auto simp: createTask_def forward_edges)
    qed
  }
qed

theorem status_moves_forward_witness:
  "reachable (after [Deploy ''a'' (JStr ''desktop'')]) \<and>
   step\<^sup>*\<^sup>* (after [Deploy ''a'' (JStr ''desktop'')])
        (after (Deploy ''a'' (JStr ''desktop'') # full_run 0 0 ''c1'')) \<and>
   task_field (after [Deploy ''a'' (JStr ''desktop'')]) ''a'' ''status'' = Some (JStr ''pulling'') \<and>
   task_field (after (Deploy ''a'' (JStr ''desktop'') # full_run 0 0 ''c1'')) ''a'' ''status''
     = Some (JStr ''running'') \<and>
   forward ''pulling'' ''running'' \<and> \<not> forward ''running'' ''pulling''"
proof -
  let ?s = "after [Deploy ''a'' (JStr ''desktop'')]"
  let ?s' = "after (Deploy ''a'' (JStr ''desktop'') # full_run 0 0 ''c1'')"
  have r: "reachable ?s" by (rule after_reachable)
  have "run (full_run 0 0 ''c1'') ?s = Some ?s'" by (simp add: after_defs)
  then have st: "step\<^sup>*\<^sup>* ?s ?s'" by (rule run_steps)
  obtain t where t: "tasks ?s ''a'' = Some t" by (simp add: after_defs)
  have a: "task_field ?s ''a'' ''status'' = Some (JStr ''pulling'')" by (simp add: after_defs)
  have b: "task_field ?s' ''a'' ''status'' = Some (JStr ''running'')" by (simp add: after_defs)
  from status_moves_forward [OF r st, of "''a''"] t a b
  have "forward ''pulling'' ''running'' \<and> \<not> forward ''running'' ''pulling''"
    by (auto simp: task_field_def)
  with r st a b show ?thesis by simp
qed

subsection \<open>C2: what deploy stores and answers\<close>




subsection \<open>C3: host ports of running tasks\<close>

text \<open>
  Claim C3 as stated says that the host ports of the tasks that are running are
  pairwise distinct. It fails: the allocator only probes a port and releases it, and
  a task stays running whatever becomes of its container. When the container of task
  \<open>a\<close> has exited, its port is free again; the probe of a second pipeline draws it, the
  bind and later the start succeed, and tasks \<open>a\<close> and \<open>b\<close> are both running with host
  port 30000.
\<close>

theorem hostPort_collision:
  "reachable (after (Deploy ''a'' (JStr ''desktop'') # full_run 0 0 ''c1'' @
                     Deploy ''b'' (JStr ''desktop'') # full_run 1 0 ''c2'')) \<and>
   task_field (after (Deploy ''a'' (JStr ''desktop'') # full_run 0 0 ''c1'' @
                      Deploy ''b'' (JStr ''desktop'') # full_run 1 0 ''c2''))
     ''a'' ''status'' = Some (JStr ''running'') \<and>
   task_field (after (Deploy ''a'' (JStr ''desktop'') # full_run 0 0 ''c1'' @
                      Deploy ''b'' (JStr ''desktop'') # full_run 1 0 ''c2''))
     ''b'' ''status'' = Some (JStr ''running'') \<and>
   task_field (after (Deploy ''a'' (JStr ''desktop'') # full_run 0 0 ''c1'' @
                      Deploy ''b'' (JStr ''desktop'') # full_run 1 0 ''c2''))
     ''a'' ''hostPort'' = Some (JNum 30000) \<and>
   task_field (after (Deploy ''a'' (JStr ''desktop'') # full_run 0 0 ''c1'' @
                      Deploy ''b'' (JStr ''desktop'') # full_run 1 0 ''c2''))
     ''b'' ''hostPort'' = Some (JNum 30000)"
  by (simp add: after_reachable) (simp add: after_defs)

text \<open>
  Claim C3, amended. In every reachable state a task whose status is running has a host
  port, an integer from 30000 up to 39999. The host ports of the running tasks are
  pairwise distinct in every run in which each allocation was exclusive, that is, no
  call of \<open>getFreePort\<close> returned a port held at that moment by a running task or by a
  closure still creating or starting its container. Nothing in the code ensures that.
\<close>

theorem running_hostPort_allocated:
  assumes "reachable s" and "tasks s i = Some t" and "t ''status'' = Some (JStr ''running'')"
  shows "(\<exists>p. 30000 \<le> p \<and> p < 40000 \<and> t ''hostPort'' = Some (JNum (real_of_int p))) \<and>
         (exclusive_step\<^sup>*\<^sup>* init s \<longrightarrow>
            (\<forall>j u. tasks s j = Some u \<and> j \<noteq> i \<and> u ''status'' = Some (JStr ''running'') \<longrightarrow>
               u ''hostPort'' \<noteq> t ''hostPort''))"
proof (intro conjI impI allI)
  from assms(1) have c: "consistent s" by (rule reachable_consistent)
  from consistent_task [OF c assms(2)] obtain k where k: "k < length (pipelines s)"
    "task_id (pipelines s ! k) = i" "agrees (cont (pipelines s ! k)) t" by blast
  from agrees_running [OF k(3) assms(3)]
  show "\<exists>p. 30000 \<le> p \<and> p < 40000 \<and> t ''hostPort'' = Some (JNum (real_of_int p))"
    by (auto simp: in_range_def)
  fix j u
  assume ex: "exclusive_step\<^sup>*\<^sup>* init s"
    and u: "tasks s j = Some u \<and> j \<noteq> i \<and> u ''status'' = Some (JStr ''running'')"
  from exclusive_steps_unshared [OF ex consistent_init unshared_init] have un: "unshared s" by simp
  from consistent_task [OF c] u obtain l where l: "l < length (pipelines s)"
    "task_id (pipelines s ! l) = j" "agrees (cont (pipelines s ! l)) u" by blast
  from agrees_running_held [OF k(3) assms(3)] obtain p where
    p: "t ''hostPort'' = Some (JNum (real_of_int p))" "held_of (cont (pipelines s ! k)) t = Some p"
    by blast
  from agrees_running_held [OF l(3)] u obtain q where
    q: "u ''hostPort'' = Some (JNum (real_of_int q))" "held_of (cont (pipelines s ! l)) u = Some q"
    by blast
  from k(2) assms(2) p(2) have hk: "held s k = Some p" by (simp add: held_def)
  from l(2) u q(2) have hl: "held s l = Some q" by (simp add: held_def)
  from k(2) l(2) u have "k \<noteq> l" by auto
  with un k(1) l(1) hk hl have "p \<noteq> q" by (auto simp: unshared_def)
  with p(1) q(1) show "u ''hostPort'' \<noteq> t ''hostPort''" by simp
qed

theorem running_hostPort_allocated_witness:
  "reachable (after (Deploy ''a'' (JStr ''server'') # full_run 0 0 ''c1'' @
                     Deploy ''b'' (JStr ''server'') # full_run 1 (1 / 2) ''c2'')) \<and>
   exclusive_step\<^sup>*\<^sup>* init
     (after (Deploy ''a'' (JStr ''server'') # full_run 0 0 ''c1'' @
             Deploy ''b'' (JStr ''server'') # full_run 1 (1 / 2) ''c2'')) \<and>
   task_field (after (Deploy ''a'' (JStr ''server'') # full_run 0 0 ''c1'' @
                      Deploy ''b'' (JStr ''server'') # full_run 1 (1 / 2) ''c2''))
     ''a'' ''status'' = Some (JStr ''running'') \<and>
   task_field (after (Deploy ''a'' (JStr ''server'') # full_run 0 0 ''c1'' @
                      Deploy ''b'' (JStr ''server'') # full_run 1 (1 / 2) ''c2''))
     ''b'' ''status'' = Some (JStr ''running'') \<and>
   task_field (after (Deploy ''a'' (JStr ''server'') # full_run 0 0 ''c1'' @
                      Deploy ''b'' (JStr ''server'') # full_run 1 (1 / 2) ''c2''))
     ''a'' ''hostPort'' = Some (JNum 30000) \<and>
   task_field (after (Deploy ''a'' (JStr ''server'') # full_run 0 0 ''c1'' @
                      Deploy ''b'' (JStr ''server'') # full_run 1 (1 / 2) ''c2''))
     ''b'' ''hostPort'' \<noteq> Some (JNum 30000)"
proof -
  let ?es = "Deploy ''a'' (JStr ''server'') # full_run 0 0 ''c1'' @
             Deploy ''b'' (JStr ''server'') # full_run 1 (1 / 2) ''c2''"
  let ?s = "after ?es"
  have r: "reachable ?s" by (rule after_reachable)
  have "\<exists>s'. exclusive_run ?es init = Some s'"
    by (simp add: after_defs held_def ports_held_def)
  then obtain s' where s': "exclusive_run ?es init = Some s'" ..
  from exclusive_run_steps [OF s'] have "exclusive_step\<^sup>*\<^sup>* init s'" "?s = s'"
    by (simp_all add: after_def)
  then have ex: "exclusive_step\<^sup>*\<^sup>* init ?s" by simp
  obtain t where t: "tasks ?s ''a'' = Some t" by (simp add: after_defs)
  obtain u where u: "tasks ?s ''b'' = Some u" by (simp add: after_defs)
  have sa: "task_field ?s ''a'' ''status'' = Some (JStr ''running'')" by (simp add: after_defs)
  have sb: "task_field ?s ''b'' ''status'' = Some (JStr ''running'')" by (simp add: after_defs)
  have pa: "task_field ?s ''a'' ''hostPort'' = Some (JNum 30000)" by (simp add: after_defs)
  from sa t have ta: "t ''status'' = Some (JStr ''running'')" by (simp add: task_field_def)
  from sb u have ub: "u ''status'' = Some (JStr ''running'')" by (simp add: task_field_def)
  from running_hostPort_allocated [OF r t ta] ex u ub
  have "u ''hostPort'' \<noteq> t ''hostPort''" by auto
  with t u pa have "task_field ?s ''b'' ''hostPort'' \<noteq> Some (JNum 30000)"
    by (simp add: task_field_def)
  with r ex sa sb pa show ?thesis by simp
qed

subsection \<open>C4: what the allocator returns\<close>

text \<open>
  Claim C4. With \<^verbatim>\<open>Math.random()\<close> a double in \<open>[0, 1)\<close>, \<open>getFreePort\<close> returns either a port
  \<open>p\<close> with \<open>30000 \<le> p < 40000\<close>, the candidate of the first of at most 100 probes whose
  bind succeeded, or the error \<^verbatim>\<open>no free ports\<close> after all 100 probes failed. The
  function is total, so every call that gets its 100 answers returns one of the two.
\<close>

theorem getFreePort_result:
  assumes "random_ok env"
  shows "case getFreePort env of
           Inr p \<Rightarrow> 30000 \<le> p \<and> p < 40000 \<and>
             (\<exists>i<100. snd (env i) \<and> p = candidate (fst (env i)) \<and> (\<forall>j<i. \<not> snd (env j)))
         | Inl e \<Rightarrow> e = JsError ''no free ports'' \<and> (\<forall>i<100. \<not> snd (env i))"
proof (cases "getFreePort env")
  case (Inl e)
  then have "getFreePort_loop env 0 = Inl e" by (simp add: getFreePort_def)
  from getFreePort_loop_Inl [OF this] Inl show ?thesis by simp
next
  case (Inr p)
  with assms have "in_range p" by (rule getFreePort_in_range)
  moreover from Inr have "getFreePort_loop env 0 = Inr p" by (simp add: getFreePort_def)
  from getFreePort_loop_Inr [OF this]
  have "\<exists>i<100. snd (env i) \<and> p = candidate (fst (env i)) \<and> (\<forall>j<i. \<not> snd (env j))" by auto
  ultimately show ?thesis using Inr by (simp add: in_range_def)
qed

theorem getFreePort_result_witness:
  "random_ok (\<lambda>i. (1 / 2, True)) \<and> getFreePort (\<lambda>i. (1 / 2, True)) = Inr 35000 \<and>
   random_ok (\<lambda>i. (sample_draw, True)) \<and> getFreePort (\<lambda>i. (sample_draw, True)) = Inr 30121 \<and>
   random_ok (\<lambda>i. (0, False)) \<and> getFreePort (\<lambda>i. (0, False)) = Inl (JsError ''no free ports'')"
proof -
  have a: "random_ok (\<lambda>i. (1 / 2, True))" and b: "random_ok (\<lambda>i. (0, False))"
    and c: "random_ok (\<lambda>i. (sample_draw, True))"
    by (simp_all add: random_ok_def unit_double_examples)
  have d: "getFreePort (\<lambda>i. (1 / 2, True)) = Inr 35000"
    by (simp add: getFreePort_first candidate_examples)
  have "\<exists>p. getFreePort (\<lambda>i. (sample_draw, True)) = Inr p"
    by (simp add: getFreePort_first)
  then obtain p where p: "getFreePort (\<lambda>i. (sample_draw, True)) = Inr p" ..
  with getFreePort_result [OF c] have "p = candidate sample_draw" by auto
  with p have f: "getFreePort (\<lambda>i. (sample_draw, True)) = Inr 30121"
    by (simp add: candidate_sample_draw)
  have "\<exists>e. getFreePort (\<lambda>i. (0, False)) = Inl e"
    by (simp add: getFreePort_exhausted)
  then obtain e where e: "getFreePort (\<lambda>i. (0::real, False)) = Inl e" ..
  with getFreePort_result [OF b] have "e = JsError ''no free ports''" by simp
  with a b c d e f getFreePort_result [OF a] show ?thesis by simp
qed

subsection \<open>C5: a failing step ends in the error status\<close>

text \<open>
  Claim C5 as stated says that the task then holds a descriptive, non-empty error
  message. It fails: the \<^verbatim>\<open>catch\<close> block copies \<^verbatim>\<open>err.message\<close> as it is. A pull that
  fails with an \<^verbatim>\<open>Error\<close> whose message is empty leaves the task in error with the
  empty string, and one rejected with a value that has no message leaves the property
  undefined.
\<close>

theorem error_detail_empty:
  "reachable (after [Deploy ''a'' (JStr ''server''), Resume 0 (PullDone (Some (JsError [])))]) \<and>
   task_field (after [Deploy ''a'' (JStr ''server''), Resume 0 (PullDone (Some (JsError [])))])
     ''a'' ''status'' = Some (JStr ''error'') \<and>
   task_field (after [Deploy ''a'' (JStr ''server''), Resume 0 (PullDone (Some (JsError [])))])
     ''a'' ''error'' = Some (JStr []) \<and>
   task_field (after [Deploy ''a'' (JStr ''server''),
                      Resume 0 (PullDone (Some (Thrown JUndefined)))])
     ''a'' ''status'' = Some (JStr ''error'') \<and>
   task_field (after [Deploy ''a'' (JStr ''server''),
                      Resume 0 (PullDone (Some (Thrown JUndefined)))])
     ''a'' ''error'' = Some JUndefined"
  by (simp add: after_reachable) (simp add: after_defs)

text \<open>
  Claim C5, amended. When the step a pipeline waits for fails (the pull, the allocator,
  the creation or the start of the container, \<open>failure_of\<close>), the closure's \<^verbatim>\<open>catch\<close>
  runs: the closure returns normally, the task's status is error, its error property is
  the message of the failure, whatever that is (so a non-empty string exactly when the
  failure carries one), no container id or host port is stored, and from then on the
  task never changes. No closure is ever left with an exception that escaped the
  \<^verbatim>\<open>catch\<close>. The pull is the case \<open>AwaitPull\<close>.
\<close>

theorem pipeline_failure_caught:
  assumes "reachable s" and "k < length (pipelines s)"
    and "admissible (Resume k out) s"
    and "failure_of (cont (pipelines s ! k)) out = Some e"
  shows "\<exists>s' t'. resume k out s = Some s' \<and>
           cont (pipelines s' ! k) = Finished \<and>
           (\<forall>P \<in> set (pipelines s'). cont P \<noteq> Faulted) \<and>
           tasks s' (task_id (pipelines s ! k)) = Some t' \<and>
           t' ''status'' = Some (JStr ''error'') \<and>
           t' ''error'' = Some (message e) \<and>
           t' ''containerId'' = None \<and> t' ''hostPort'' = None \<and>
           (\<forall>s''. step\<^sup>*\<^sup>* s' s'' \<longrightarrow>
              tasks s'' (task_id (pipelines s ! k)) = Some t' \<and>
              (\<forall>P \<in> set (pipelines s''). cont P \<noteq> Faulted))"
proof -
  let ?P = "pipelines s ! k"
  from assms(1) have c: "consistent s" by (rule reachable_consistent)
  from consistent_pipeline [OF c assms(2)] obtain t where t: "tasks s (task_id ?P) = Some t"
    and ag: "agrees (cont ?P) t" by blast
  from assms(4) have tr: "task_resume (cont ?P) out t = Some (Finished, caught e t)"
    by (rule failure_of_resume)
  define s' where "s' = s\<lparr>tasks := (tasks s)(task_id ?P \<mapsto> caught e t),
      pipelines := (pipelines s)[k := ?P\<lparr>cont := Finished\<rparr>]\<rparr>"
  have r: "resume k out s = Some s'"
    using assms(2) t tr by (simp add: resume_def pipeline_resume_task s'_def Let_def)
  from assms(3) have "outcome_ok out" by (rule admissible_outcome)
  with c r have c': "consistent s'" by (rule consistent_resume)
  have st: "settled (caught e t)" using ag assms(4) by (rule agrees_caught)
  have t': "tasks s' (task_id ?P) = Some (caught e t)" by (simp add: s'_def)
  have stable: "\<forall>s''. step\<^sup>*\<^sup>* s' s'' \<longrightarrow> tasks s'' (task_id ?P) = Some (caught e t) \<and>
      (\<forall>P \<in> set (pipelines s''). cont P \<noteq> Faulted)"
    using settled_stable [OF _ c' t' st] steps_consistent [OF _ c'] consistent_no_fault
    by blast
  have nf: "\<forall>P \<in> set (pipelines s'). cont P \<noteq> Faulted"
    using c' consistent_no_fault by blast
  have fin: "cont (pipelines s' ! k) = Finished" using assms(2) by (simp add: s'_def)
  have flds: "caught e t ''status'' = Some (JStr ''error'')"
    "caught e t ''error'' = Some (message e)"
    by (simp_all add: caught_def)
  from st flds have none: "caught e t ''containerId'' = None" "caught e t ''hostPort'' = None"
    by (auto simp: settled_def)
  from r fin nf t' flds none stable show ?thesis by blast
qed

theorem pipeline_failure_caught_witness:
  "reachable (after [Deploy ''a'' (JStr ''server'')]) \<and>
   0 < length (pipelines (after [Deploy ''a'' (JStr ''server'')])) \<and>
   failure_of (cont (pipelines (after [Deploy ''a'' (JStr ''server'')]) ! 0))
     (PullDone (Some (JsError ''pull access denied''))) = Some (JsError ''pull access denied'') \<and>
   (\<exists>t'. tasks (after [Deploy ''a'' (JStr ''server''),
                        Resume 0 (PullDone (Some (JsError ''pull access denied'')))]) ''a'' = Some t' \<and>
      t' ''status'' = Some (JStr ''error'') \<and> t' ''error'' = Some (JStr ''pull access denied'') \<and>
      t' ''containerId'' = None \<and> t' ''hostPort'' = None)"
proof -
  let ?s = "after [Deploy ''a'' (JStr ''server'')]"
  let ?out = "PullDone (Some (JsError ''pull access denied''))"
  have r: "reachable ?s" by (rule after_reachable)
  have k: "0 < length (pipelines ?s)" by (simp add: after_def run_defs)
  have a: "admissible (Resume 0 ?out) ?s" by simp
  have f: "failure_of (cont (pipelines ?s ! 0)) ?out = Some (JsError ''pull access denied'')"
    by (simp add: after_def run_defs)
  have i: "task_id (pipelines ?s ! 0) = ''a''" by (simp add: after_def run_defs)
  have e: "after [Deploy ''a'' (JStr ''server''), Resume 0 ?out] = the (resume 0 ?out ?s)"
    by (simp add: after_def run_defs)
  from pipeline_failure_caught [OF r k a f] r k f show ?thesis
    unfolding i e by auto
qed

subsection \<open>C6: when the container id and the host port are stored\<close>

text \<open>
  Claim C6 as stated says that the container handle and the host port are on the task
  as soon as the container is created, before it is started. It fails: after
  \<^verbatim>\<open>docker.createContainer\<close> has succeeded the task has status starting and neither
  property; the closure holds both in local variables only.
\<close>

theorem handle_absent_while_starting:
  "reachable (after [Deploy ''a'' (JStr ''desktop''), Resume 0 (PullDone None),
                     Resume 0 (PortDone (\<lambda>i. (0, True))), Resume 0 (CreateDone (Inr ''c1''))]) \<and>
   map cont (pipelines (after [Deploy ''a'' (JStr ''desktop''), Resume 0 (PullDone None),
                     Resume 0 (PortDone (\<lambda>i. (0, True))), Resume 0 (CreateDone (Inr ''c1''))]))
     = [AwaitStart 30000 ''c1''] \<and>
   task_field (after [Deploy ''a'' (JStr ''desktop''), Resume 0 (PullDone None),
                     Resume 0 (PortDone (\<lambda>i. (0, True))), Resume 0 (CreateDone (Inr ''c1''))])
     ''a'' ''status'' = Some (JStr ''starting'') \<and>
   task_field (after [Deploy ''a'' (JStr ''desktop''), Resume 0 (PullDone None),
                     Resume 0 (PortDone (\<lambda>i. (0, True))), Resume 0 (CreateDone (Inr ''c1''))])
     ''a'' ''containerId'' = None \<and>
   task_field (after [Deploy ''a'' (JStr ''desktop''), Resume 0 (PullDone None),
                     Resume 0 (PortDone (\<lambda>i. (0, True))), Resume 0 (CreateDone (Inr ''c1''))])
     ''a'' ''hostPort'' = None"
  by (simp add: after_reachable) (simp add: after_defs)

text \<open>
  Claim C6, amended. The container id and the host port are stored in the step that
  sets the status to running, after creation, start and the wait have succeeded, and
  not before: a task that is not running has neither, a step that adds one takes the
  task from starting to running, and a property once present is never changed.
\<close>

theorem handle_and_port_set_once:
  assumes "reachable s" and "step s s'" and "tasks s i = Some t"
  shows "\<exists>t'. tasks s' i = Some t' \<and>
           (\<forall>f \<in> {''containerId'', ''hostPort''}.
              (t f \<noteq> None \<longrightarrow> t' f = t f) \<and>
              (t f = None \<and> t' f \<noteq> None \<longrightarrow>
                 t ''status'' = Some (JStr ''starting'') \<and> t' ''status'' = Some (JStr ''running''))) \<and>
           (t ''status'' \<noteq> Some (JStr ''running'') \<longrightarrow>
              t ''containerId'' = None \<and> t ''hostPort'' = None)"
proof -
  from assms(1) have c: "consistent s" by (rule reachable_consistent)
  from consistent_task [OF c assms(3)] obtain k where "agrees (cont (pipelines s ! k)) t" by blast
  then have nr: "t ''status'' \<noteq> Some (JStr ''running'') \<longrightarrow>
      t ''containerId'' = None \<and> t ''hostPort'' = None"
    using agrees_not_running by blast
  from step_task [OF c assms(2,3)] consider "tasks s' i = Some t"
    | c0 out c' t' where "agrees c0 t" "task_resume c0 out t = Some (c', t')" "tasks s' i = Some t'"
    by blast
  then show ?thesis
  proof cases
    case 1
    with nr show ?thesis by auto
  next
    case 2
    from task_resume_handle [OF 2(2) 2(1)] 2(3) nr show ?thesis by auto
  qed
qed

theorem handle_and_port_set_once_witness:
  "reachable (after (Deploy ''a'' (JStr ''desktop'') # butlast (full_run 0 0 ''c1''))) \<and>
   step (after (Deploy ''a'' (JStr ''desktop'') # butlast (full_run 0 0 ''c1'')))
        (after (Deploy ''a'' (JStr ''desktop'') # full_run 0 0 ''c1'')) \<and>
   task_field (after (Deploy ''a'' (JStr ''desktop'') # butlast (full_run 0 0 ''c1'')))
     ''a'' ''containerId'' = None \<and>
   task_field (after (Deploy ''a'' (JStr ''desktop'') # full_run 0 0 ''c1''))
     ''a'' ''containerId'' = Some (JStr ''c1'') \<and>
   task_field (after (Deploy ''a'' (JStr ''desktop'') # butlast (full_run 0 0 ''c1'')))
     ''a'' ''status'' = Some (JStr ''starting'') \<and>
   task_field (after (Deploy ''a'' (JStr ''desktop'') # full_run 0 0 ''c1''))
     ''a'' ''status'' = Some (JStr ''running'')"
proof -
  let ?s = "after (Deploy ''a'' (JStr ''desktop'') # butlast (full_run 0 0 ''c1''))"
  let ?s' = "after (Deploy ''a'' (JStr ''desktop'') # full_run 0 0 ''c1'')"
  have r: "reachable ?s" by (rule after_reachable)
  have st: "step ?s ?s'"
    by (rule after_step_eval [where e = "Resume 0 TimerDone"]) (simp_all add: full_run_def run_defs)
  obtain t where t: "tasks ?s ''a'' = Some t" by (simp add: after_defs)
  have a: "task_field ?s ''a'' ''containerId'' = None" by (simp add: after_defs)
  have b: "task_field ?s' ''a'' ''containerId'' = Some (JStr ''c1'')" by (simp add: after_defs)
  from handle_and_port_set_once [OF r st t] t a b
  have "task_field ?s ''a'' ''status'' = Some (JStr ''starting'') \<and>
        task_field ?s' ''a'' ''status'' = Some (JStr ''running'')"
    by (auto simp: task_field_def)
  with r st a b show ?thesis by simp
qed

subsection \<open>C7: an unknown type is rejected and nothing is created\<close>

text \<open>
  Claim C7. For a request whose type is neither the string desktop nor the string
  server, the handler answers with the client error and leaves the store and the
  pipelines as they were.
\<close>

theorem deploy_rejects_unknown_type:
  assumes "ty \<noteq> JStr ''desktop''" and "ty \<noteq> JStr ''server''"
  shows "tasks (deploy uuid ty s) = tasks s \<and> pipelines (deploy uuid ty s) = pipelines s \<and>
         sent (deploy uuid ty s) = sent s @ [BadRequest ''type must be desktop or server'']"
  using assms by (simp add: deploy_def includes_type_def)

theorem deploy_rejects_unknown_type_witness:
  "JStr ''laptop'' \<noteq> JStr ''desktop'' \<and> JStr ''laptop'' \<noteq> JStr ''server'' \<and>
   tasks (deploy ''a'' (JStr ''laptop'') init) = Map.empty \<and>
   sent (deploy ''a'' (JStr ''laptop'') init) = [BadRequest ''type must be desktop or server''] \<and>
   tasks (deploy ''a'' JUndefined init) = Map.empty"
  using deploy_rejects_unknown_type [of "JStr ''laptop''" "''a''" init]
    deploy_rejects_unknown_type [of JUndefined "''a''" init]
  by (simp add: init_def)

subsection \<open>C8: the allocator running out of attempts\<close>

text \<open>
  Claim C8. When a pipeline waits for the allocator (its task is at creating) and all
  100 binds fail, \<open>getFreePort\<close> throws \<^verbatim>\<open>no free ports\<close> and the pipeline ends with the
  task's status error and that message as its error. The caller of deploy got the id
  before, and the failure sends no response.
\<close>

theorem no_free_ports_becomes_task_error:
  assumes "reachable s" and "k < length (pipelines s)"
    and "cont (pipelines s ! k) = AwaitPort"
    and "\<forall>i<100. \<not> snd (env i)"
  shows "getFreePort env = Inl (JsError ''no free ports'') \<and>
         (\<exists>t s' t'. tasks s (task_id (pipelines s ! k)) = Some t \<and>
            t ''status'' = Some (JStr ''creating'') \<and>
            resume k (PortDone env) s = Some s' \<and>
            cont (pipelines s' ! k) = Finished \<and>
            tasks s' (task_id (pipelines s ! k)) = Some t' \<and>
            t' ''status'' = Some (JStr ''error'') \<and>
            t' ''error'' = Some (JStr ''no free ports'') \<and>
            DeployOk (task_id (pipelines s ! k)) \<in> set (sent s) \<and>
            sent s' = sent s)"
proof -
  let ?P = "pipelines s ! k"
  from assms(4) have g: "getFreePort env = Inl (JsError ''no free ports'')"
    by (rule getFreePort_exhausted)
  from assms(1) have c: "consistent s" by (rule reachable_consistent)
  from consistent_pipeline [OF c assms(2)] obtain t where t: "tasks s (task_id ?P) = Some t"
    and ag: "agrees (cont ?P) t" and d: "DeployOk (task_id ?P) \<in> set (sent s)" by blast
  from ag assms(3) have st: "t ''status'' = Some (JStr ''creating'')" by simp
  define s' where "s' = s\<lparr>tasks := (tasks s)(task_id ?P \<mapsto> caught (JsError ''no free ports'') t),
      pipelines := (pipelines s)[k := ?P\<lparr>cont := Finished\<rparr>]\<rparr>"
  have r: "resume k (PortDone env) s = Some s'"
    using assms(2,3) t g by (simp add: resume_def catch_err_Some s'_def Let_def)
  have "cont (pipelines s' ! k) = Finished" using assms(2) by (simp add: s'_def)
  moreover have "tasks s' (task_id ?P) = Some (caught (JsError ''no free ports'') t)"
    by (simp add: s'_def)
  moreover have "caught (JsError ''no free ports'') t ''status'' = Some (JStr ''error'')"
    "caught (JsError ''no free ports'') t ''error'' = Some (JStr ''no free ports'')"
    by (simp_all add: caught_def)
  moreover have "sent s' = sent s" by (simp add: s'_def)
  ultimately show ?thesis using g t st r d by blast
qed

theorem no_free_ports_becomes_task_error_witness:
  "reachable (after [Deploy ''a'' (JStr ''desktop''), Resume 0 (PullDone None)]) \<and>
   cont (pipelines (after [Deploy ''a'' (JStr ''desktop''), Resume 0 (PullDone None)]) ! 0) = AwaitPort \<and>
   getFreePort (\<lambda>i. (0, False)) = Inl (JsError ''no free ports'') \<and>
   (\<exists>t'. tasks (after [Deploy ''a'' (JStr ''desktop''), Resume 0 (PullDone None),
                        Resume 0 (PortDone (\<lambda>i. (0, False)))]) ''a'' = Some t' \<and>
      t' ''status'' = Some (JStr ''error'') \<and> t' ''error'' = Some (JStr ''no free ports'')) \<and>
   sent (after [Deploy ''a'' (JStr ''desktop''), Resume 0 (PullDone None),
                Resume 0 (PortDone (\<lambda>i. (0, False)))]) = [DeployOk ''a'']"
proof -
  let ?s = "after [Deploy ''a'' (JStr ''desktop''), Resume 0 (PullDone None)]"
  let ?env = "\<lambda>i::nat. (0::real, False)"
  have r: "reachable ?s" by (rule after_reachable)
  have k: "0 < length (pipelines ?s)" by (simp add: after_def run_defs)
  have p: "cont (pipelines ?s ! 0) = AwaitPort" by (simp add: after_def run_defs)
  have n: "\<forall>i<100. \<not> snd (?env i)" by simp
  have i: "task_id (pipelines ?s ! 0) = ''a''" by (simp add: after_def run_defs)
  have s: "sent ?s = [DeployOk ''a'']" by (simp add: after_def run_defs)
  note inst = no_free_ports_becomes_task_error [OF r k p n]
  from inst have g: "getFreePort ?env = Inl (JsError ''no free ports'')" by blast
  have e: "after [Deploy ''a'' (JStr ''desktop''), Resume 0 (PullDone None),
      Resume 0 (PortDone ?env)] = the (resume 0 (PortDone ?env) ?s)"
    by (simp add: after_def run_defs g del: getFreePort_first)
  from inst r p s show ?thesis unfolding i e by auto
qed

subsection \<open>C9: what is fixed at creation\<close>

text \<open>
  Claim C9 as stated says that every task carries a creation timestamp. It fails: a
  task is created with the two properties status and type, and no code adds a
  \<^verbatim>\<open>createdAt\<close>.
\<close>

theorem task_has_no_createdAt:
  "reachable (after [Deploy ''a'' (JStr ''desktop'')]) \<and>
   task_field (after [Deploy ''a'' (JStr ''desktop'')]) ''a'' ''status'' = Some (JStr ''pulling'') \<and>
   task_field (after [Deploy ''a'' (JStr ''desktop'')]) ''a'' ''createdAt'' = None \<and>
   createTask ''a'' (JStr ''desktop'') Map.empty ''a'' =
     Some [''status'' \<mapsto> JStr ''queued'', ''type'' \<mapsto> JStr ''desktop'']"
  by (simp add: after_reachable) (simp add: after_defs)

text \<open>
  Claim C9, amended. The key of a task in the store and its type are given when the task
  is created (the type is the one of the request) and no step changes them: a task that
  exists is under the same key after the step, with the same type, which is desktop or
  server. No task has a \<^verbatim>\<open>createdAt\<close> property, before or after.
\<close>

theorem id_and_type_immutable:
  assumes "reachable s" and "step s s'"
  shows "(\<forall>t. tasks s i = Some t \<longrightarrow>
            (\<exists>t' ty. tasks s' i = Some t' \<and> t ''type'' = Some ty \<and> includes_type ty \<and>
               t' ''type'' = Some ty \<and> t ''createdAt'' = None \<and> t' ''createdAt'' = None)) \<and>
         (tasks s i = None \<longrightarrow> tasks s' i = None \<or>
            (\<exists>ty. includes_type ty \<and> s' = deploy i ty s \<and>
               createTask i ty (tasks s) i = Some [''status'' \<mapsto> JStr ''queued'', ''type'' \<mapsto> ty] \<and>
               task_field s' i ''type'' = Some ty \<and> task_field s' i ''createdAt'' = None))"
proof (intro conjI allI impI)
  from assms(1) have c: "consistent s" by (rule reachable_consistent)
  {
    fix t assume t: "tasks s i = Some t"
    from consistent_task [OF c t] have sh: "shaped t" by blast
    from step_task [OF c assms(2) t] consider "tasks s' i = Some t"
      | c0 out c' t' where "task_resume c0 out t = Some (c', t')" "tasks s' i = Some t'"
      by blast
    then show "\<exists>t' ty. tasks s' i = Some t' \<and> t ''type'' = Some ty \<and> includes_type ty \<and>
               t' ''type'' = Some ty \<and> t ''createdAt'' = None \<and> t' ''createdAt'' = None"
    proof cases
      case 1
      with sh show ?thesis by (auto simp: shaped_def)
    next
      case 2
      from task_resume_shaped [OF 2(1) sh] sh 2(2) show ?thesis by (auto simp: shaped_def)
    qed
  }
  {
    assume "tasks s i = None"
    from step_new_task [OF c assms(2) this]
    show "tasks s' i = None \<or>
            (\<exists>ty. includes_type ty \<and> s' = deploy i ty s \<and>
               createTask i ty (tasks s) i = Some [''status'' \<mapsto> JStr ''queued'', ''type'' \<mapsto> ty] \<and>
               task_field s' i ''type'' = Some ty \<and> task_field s' i ''createdAt'' = None)"
      by (auto simp: task_field_def createTask_def)
  }
qed

theorem id_and_type_immutable_witness:
  "reachable (after (Deploy ''a'' (JStr ''server'') # butlast (full_run 0 0 ''c1''))) \<and>
   step (after (Deploy ''a'' (JStr ''server'') # butlast (full_run 0 0 ''c1'')))
        (after (Deploy ''a'' (JStr ''server'') # full_run 0 0 ''c1'')) \<and>
   task_field (after (Deploy ''a'' (JStr ''server'') # butlast (full_run 0 0 ''c1'')))
     ''a'' ''type'' = Some (JStr ''server'') \<and>
   task_field (after (Deploy ''a'' (JStr ''server'') # full_run 0 0 ''c1''))
     ''a'' ''type'' = Some (JStr ''server'') \<and>
   task_field (after (Deploy ''a'' (JStr ''server'') # full_run 0 0 ''c1''))
     ''a'' ''createdAt'' = None"
proof -
  let ?s = "after (Deploy ''a'' (JStr ''server'') # butlast (full_run 0 0 ''c1''))"
  let ?s' = "after (Deploy ''a'' (JStr ''server'') # full_run 0 0 ''c1'')"
  have r: "reachable ?s" by (rule after_reachable)
  have st: "step ?s ?s'"
    by (rule after_step_eval [where e = "Resume 0 TimerDone"]) (simp_all add: full_run_def run_defs)
  obtain t where t: "tasks ?s ''a'' = Some t" by (simp add: after_defs)
  obtain t' where t': "tasks ?s' ''a'' = Some t'" by (simp add: after_defs)
  have a: "task_field ?s ''a'' ''type'' = Some (JStr ''server'')" by (simp add: after_defs)
  from id_and_type_immutable [OF r st, of "''a''"] t t' a
  have "task_field ?s' ''a'' ''type'' = Some (JStr ''server'') \<and>
        task_field ?s' ''a'' ''createdAt'' = None"
    by (auto simp: task_field_def)
  with r st a show ?thesis by simp
qed

subsection \<open>C10: a running task shows its container id and host port\<close>

text \<open>
  Claim C10. The three assignments \<^verbatim>\<open>status = 'running'\<close>, \<^verbatim>\<open>containerId\<close> and
  \<^verbatim>\<open>hostPort\<close> are one stretch of the closure with no \<^verbatim>\<open>await\<close> in between, one step
  of the model. So in every reachable state a task with status running has both
  properties, every snapshot ever sent by the status handler with status running has
  both, and the step that makes a task running takes it from having neither to having
  both.
\<close>

theorem running_task_has_handle_and_port:
  assumes "reachable s"
  shows "(\<forall>i t. tasks s i = Some t \<and> t ''status'' = Some (JStr ''running'') \<longrightarrow>
            (\<exists>h p. t ''containerId'' = Some (JStr h) \<and> t ''hostPort'' = Some (JNum p))) \<and>
         (\<forall>t. StatusOk t \<in> set (sent s) \<and> t ''status'' = Some (JStr ''running'') \<longrightarrow>
            (\<exists>h p. t ''containerId'' = Some (JStr h) \<and> t ''hostPort'' = Some (JNum p))) \<and>
         (\<forall>s' i t t'. step s s' \<and> tasks s i = Some t \<and> tasks s' i = Some t' \<and>
            t ''status'' \<noteq> Some (JStr ''running'') \<and> t' ''status'' = Some (JStr ''running'') \<longrightarrow>
            t ''containerId'' = None \<and> t ''hostPort'' = None \<and>
            (\<exists>h p. t' ''containerId'' = Some (JStr h) \<and> t' ''hostPort'' = Some (JNum p)))"
proof -
  from assms have c: "consistent s" by (rule reachable_consistent)
  have stored: "\<exists>h p. t ''containerId'' = Some (JStr h) \<and> t ''hostPort'' = Some (JNum p)"
    if "consistent u" "tasks u i = Some t" "t ''status'' = Some (JStr ''running'')" for u i t
  proof -
    from consistent_task [OF that(1,2)] obtain k where "agrees (cont (pipelines u ! k)) t" by blast
    from agrees_running [OF this that(3)] show ?thesis by blast
  qed
  have polled: "\<exists>h p. t ''containerId'' = Some (JStr h) \<and> t ''hostPort'' = Some (JNum p)"
    if "StatusOk t \<in> set (sent s)" "t ''status'' = Some (JStr ''running'')" for t
  proof -
    from c that(1) obtain c0 where "agrees c0 t" by (auto simp: consistent_def)
    from agrees_running [OF this that(2)] show ?thesis by blast
  qed
  have atomic: "t ''containerId'' = None \<and> t ''hostPort'' = None \<and>
      (\<exists>h p. t' ''containerId'' = Some (JStr h) \<and> t' ''hostPort'' = Some (JNum p))"
    if "step s s'" "tasks s i = Some t" "tasks s' i = Some t'"
      "t ''status'' \<noteq> Some (JStr ''running'')" "t' ''status'' = Some (JStr ''running'')"
    for s' i t t'
  proof -
    from c that(1) have c': "consistent s'" by (rule consistent_step)
    from consistent_task [OF c that(2)] obtain k where "agrees (cont (pipelines s ! k)) t" by blast
    from agrees_not_running [OF this that(4)] stored [OF c' that(3,5)] show ?thesis by blast
  qed
  from stored [OF c] polled atomic show ?thesis by blast
qed

theorem running_task_has_handle_and_port_witness:
  "reachable (after (Deploy ''a'' (JStr ''desktop'') # full_run 0 0 ''c1'' @ [Status ''a''])) \<and>
   task_field (after (Deploy ''a'' (JStr ''desktop'') # full_run 0 0 ''c1'' @ [Status ''a'']))
     ''a'' ''status'' = Some (JStr ''running'') \<and>
   (\<exists>h p. task_field (after (Deploy ''a'' (JStr ''desktop'') # full_run 0 0 ''c1'' @ [Status ''a'']))
       ''a'' ''containerId'' = Some (JStr h) \<and>
     task_field (after (Deploy ''a'' (JStr ''desktop'') # full_run 0 0 ''c1'' @ [Status ''a'']))
       ''a'' ''hostPort'' = Some (JNum p))"
proof -
  let ?s = "after (Deploy ''a'' (JStr ''desktop'') # full_run 0 0 ''c1'' @ [Status ''a''])"
  have r: "reachable ?s" by (rule after_reachable)
  obtain t where t: "tasks ?s ''a'' = Some t" by (simp add: after_defs)
  have st: "task_field ?s ''a'' ''status'' = Some (JStr ''running'')" by (simp add: after_defs)
  with t have "t ''status'' = Some (JStr ''running'')" by (simp add: task_field_def)
  with running_task_has_handle_and_port [OF r] t
  have "\<exists>h p. t ''containerId'' = Some (JStr h) \<and> t ''hostPort'' = Some (JNum p)" by blast
  with r st t show ?thesis by (simp add: task_field_def)
qed

end
